theory Spec2Isabelle
  imports Main "HOL-Library.AList"
begin

section \<open>Value trees\<close>

text \<open>
  The library works on JSON-like JavaScript values.  A record is an association list in
  enumeration order (insertion order of the own enumerable string keys), a sequence is a
  list, a date carries its ISO text (what \<^verbatim>\<open>toISOString\<close> prints).  Numbers are the
  integers; \<^verbatim>\<open>NaN\<close>, infinities and fractions are not represented.  Only own
  properties are represented: the members inherited from \<^verbatim>\<open>Object.prototype\<close> are not,
  and integer-like record keys (which an engine enumerates first) are taken in the order
  they are written.  An array hole is represented by \<open>Undef\<close>.
\<close>

datatype jsval =
    Undef
  | Null
  | JBool bool
  | JNum int
  | JStr string
  | JDate string
  | JArr "jsval list"
  | JObj "(string \<times> jsval) list"

text \<open>
  \<open>TypeError\<close> is the exception of a property access on \<^verbatim>\<open>undefined\<close> or
  \<^verbatim>\<open>null\<close>.  \<open>OutsideModel\<close> marks a step whose JavaScript result is an array or
  a date carrying a named property, which \<open>jsval\<close> does not represent.
\<close>

datatype error = TypeError | OutsideModel

fun js_typeof :: "jsval \<Rightarrow> string" where
  "js_typeof Undef = ''undefined''"
| "js_typeof Null = ''object''"
| "js_typeof (JBool b) = ''boolean''"
| "js_typeof (JNum n) = ''number''"
| "js_typeof (JStr s) = ''string''"
| "js_typeof (JDate d) = ''object''"
| "js_typeof (JArr xs) = ''object''"
| "js_typeof (JObj kvs) = ''object''"

fun truthy :: "jsval \<Rightarrow> bool" where
  "truthy Undef = False"
| "truthy Null = False"
| "truthy (JBool b) = b"
| "truthy (JNum n) = (n \<noteq> 0)"
| "truthy (JStr s) = (s \<noteq> [])"
| "truthy (JDate d) = True"
| "truthy (JArr xs) = True"
| "truthy (JObj kvs) = True"

fun isArray :: "jsval \<Rightarrow> bool" where
  "isArray (JArr xs) = True"
| "isArray v = False"

text \<open>utils.js, \<^verbatim>\<open>isPlainObject\<close>: not null, of type object, not an array.\<close>

definition isPlainObject :: "jsval \<Rightarrow> bool" where
  "isPlainObject v = (v \<noteq> Null \<and> js_typeof v = ''object'' \<and> \<not> isArray v)"

text \<open>
  \<^verbatim>\<open>a === b\<close>.  Primitives compare by value; records, sequences and dates compare by
  reference.  The flag \<open>sh\<close> says whether the two operands are the same reference (as in
  \<^verbatim>\<open>diff(x, x)\<close>, where every pair of corresponding subtrees is one object) or two
  allocations (as in a comparison with a copy).
\<close>

fun is_prim :: "jsval \<Rightarrow> bool" where
  "is_prim (JDate d) = False"
| "is_prim (JArr xs) = False"
| "is_prim (JObj kvs) = False"
| "is_prim v = True"

definition strict_eq :: "bool \<Rightarrow> jsval \<Rightarrow> jsval \<Rightarrow> bool" where
  "strict_eq sh a b = (if is_prim a \<and> is_prim b then a = b else sh \<and> a = b)"

section \<open>Strings\<close>

definition digit_char :: "nat \<Rightarrow> char" where
  "digit_char n = char_of (48 + n)"

fun string_of_nat :: "nat \<Rightarrow> string" where
  "string_of_nat n =
     (if n < 10 then [digit_char n] else string_of_nat (n div 10) @ [digit_char (n mod 10)])"

declare string_of_nat.simps [simp del]

definition string_of_int :: "int \<Rightarrow> string" where
  "string_of_int i = (if i < 0 then CHR ''-'' # string_of_nat (nat (- i)) else string_of_nat (nat i))"

definition is_digit :: "char \<Rightarrow> bool" where
  "is_digit c = (48 \<le> (of_char c :: nat) \<and> (of_char c :: nat) \<le> 57)"

text \<open>\<^verbatim>\<open>parseInt\<close> on a string of decimal digits.\<close>

definition nat_of_digits :: "string \<Rightarrow> nat" where
  "nat_of_digits ds = foldl (\<lambda>acc c. 10 * acc + ((of_char c :: nat) - 48)) 0 ds"

text \<open>
  A property key that addresses an array element: the canonical decimal text of an
  index.
\<close>

definition index_of_key :: "string \<Rightarrow> nat option" where
  "index_of_key k =
     (if k \<noteq> [] \<and> list_all is_digit k \<and> (k = ''0'' \<or> hd k \<noteq> CHR ''0'')
      then Some (nat_of_digits k) else None)"

text \<open>\<^verbatim>\<open>s.split('.')\<close>: always at least one piece.\<close>

fun split_dot :: "string \<Rightarrow> string list" where
  "split_dot [] = [[]]"
| "split_dot (c # cs) =
     (if c = CHR ''.'' then [] # split_dot cs
      else (case split_dot cs of p # ps \<Rightarrow> (c # p) # ps | [] \<Rightarrow> [[c]]))"

fun join_with :: "string \<Rightarrow> string list \<Rightarrow> string" where
  "join_with sep [] = []"
| "join_with sep [x] = x"
| "join_with sep (x # y # ys) = x @ sep @ join_with sep (y # ys)"

section \<open>Property access\<close>

definition obj_get :: "(string \<times> jsval) list \<Rightarrow> string \<Rightarrow> jsval" where
  "obj_get kvs k = (case map_of kvs k of None \<Rightarrow> Undef | Some v \<Rightarrow> v)"

definition has_key :: "(string \<times> jsval) list \<Rightarrow> string \<Rightarrow> bool" where
  "has_key kvs k = (map_of kvs k \<noteq> None)"

text \<open>\<^verbatim>\<open>xs[i] = v\<close> on an array: in range it replaces, beyond the end it extends.\<close>

definition ext_set :: "jsval list \<Rightarrow> nat \<Rightarrow> jsval \<Rightarrow> jsval list" where
  "ext_set xs i v =
     (if i < length xs then xs[i := v] else xs @ replicate (i - length xs) Undef @ [v])"

text \<open>\<^verbatim>\<open>o[k]\<close>: a read.  It throws on \<^verbatim>\<open>undefined\<close> and \<^verbatim>\<open>null\<close>.\<close>

fun get_prop :: "jsval \<Rightarrow> string \<Rightarrow> error + jsval" where
  "get_prop Undef k = Inl TypeError"
| "get_prop Null k = Inl TypeError"
| "get_prop (JObj kvs) k = Inr (obj_get kvs k)"
| "get_prop (JArr xs) k =
     (if k = ''length'' then Inr (JNum (int (length xs)))
      else (case index_of_key k of
              Some i \<Rightarrow> Inr (if i < length xs then xs ! i else Undef)
            | None \<Rightarrow> Inr Undef))"
| "get_prop (JStr s) k =
     (if k = ''length'' then Inr (JNum (int (length s)))
      else (case index_of_key k of
              Some i \<Rightarrow> Inr (if i < length s then JStr [s ! i] else Undef)
            | None \<Rightarrow> Inr Undef))"
| "get_prop v k = Inr Undef"

text \<open>
  \<^verbatim>\<open>o[k] = v\<close> in sloppy mode (the modules do not opt into strict mode): it throws on
  \<^verbatim>\<open>undefined\<close> and \<^verbatim>\<open>null\<close>, is silently dropped on a primitive, updates a
  record in place or appends the new key.
\<close>

fun set_prop :: "jsval \<Rightarrow> string \<Rightarrow> jsval \<Rightarrow> error + jsval" where
  "set_prop Undef k v = Inl TypeError"
| "set_prop Null k v = Inl TypeError"
| "set_prop (JObj kvs) k v = Inr (JObj (AList.update k v kvs))"
| "set_prop (JArr xs) k v =
     (case index_of_key k of
        Some i \<Rightarrow> Inr (JArr (ext_set xs i v))
      | None \<Rightarrow> Inl OutsideModel)"
| "set_prop (JDate d) k v = Inl OutsideModel"
| "set_prop w k v = Inr w"

section \<open>JSON serialisation\<close>

definition hex_char :: "nat \<Rightarrow> char" where
  "hex_char n = (if n < 10 then char_of (48 + n) else char_of (87 + n))"

definition json_escape :: "char \<Rightarrow> string" where
  "json_escape c =
     (let n = (of_char c :: nat) in
      if c = CHR 0x22 then [CHR 0x5C, CHR 0x22]
      else if c = CHR 0x5C then [CHR 0x5C, CHR 0x5C]
      else if n = 8 then [CHR 0x5C, CHR ''b'']
      else if n = 12 then [CHR 0x5C, CHR ''f'']
      else if n = 10 then [CHR 0x5C, CHR ''n'']
      else if n = 13 then [CHR 0x5C, CHR ''r'']
      else if n = 9 then [CHR 0x5C, CHR ''t'']
      else if n < 32 then [CHR 0x5C, CHR ''u'', CHR ''0'', CHR ''0'', hex_char (n div 16), hex_char (n mod 16)]
      else [c])"

definition json_quote :: "string \<Rightarrow> string" where
  "json_quote s = CHR 0x22 # concat (map json_escape s) @ [CHR 0x22]"

text \<open>
  \<^verbatim>\<open>JSON.stringify\<close>: \<^verbatim>\<open>undefined\<close> has no text (\<open>None\<close>); inside a sequence it
  prints as \<^verbatim>\<open>null\<close>, inside a record its key is left out.
\<close>

fun stringify :: "jsval \<Rightarrow> string option"
  and stringify_items :: "jsval list \<Rightarrow> string list"
  and stringify_fields :: "(string \<times> jsval) list \<Rightarrow> string list" where
  "stringify Undef = None"
| "stringify Null = Some ''null''"
| "stringify (JBool b) = Some (if b then ''true'' else ''false'')"
| "stringify (JNum n) = Some (string_of_int n)"
| "stringify (JStr s) = Some (json_quote s)"
| "stringify (JDate d) = Some (json_quote d)"
| "stringify (JArr xs) = Some (''['' @ join_with '','' (stringify_items xs) @ '']'')"
| "stringify (JObj kvs) = Some (''{'' @ join_with '','' (stringify_fields kvs) @ ''}'')"
| "stringify_items [] = []"
| "stringify_items (x # xs) =
     (case stringify x of None \<Rightarrow> ''null'' | Some s \<Rightarrow> s) # stringify_items xs"
| "stringify_fields [] = []"
| "stringify_fields (kv # kvs) =
     (case stringify (snd kv) of
        None \<Rightarrow> stringify_fields kvs
      | Some s \<Rightarrow> (json_quote (fst kv) @ '':'' @ s) # stringify_fields kvs)"

section \<open>differ.js: whole-tree equality\<close>

definition isEqual :: "jsval \<Rightarrow> jsval \<Rightarrow> bool" where
  "isEqual obj1 obj2 = (stringify obj1 = stringify obj2)"

definition hasChanges :: "jsval \<Rightarrow> jsval \<Rightarrow> bool" where
  "hasChanges original current = (\<not> isEqual original current)"

section \<open>differ.js: the change tree\<close>

text \<open>
  The pattern \<^verbatim>\<open>/^(.+)\[(\d+)\]$/\<close> of \<^verbatim>\<open>setChangePath\<close>: a non-empty prefix
  without line breaks, then a bracketed run of decimal digits at the very end.  The
  result is the prefix and \<^verbatim>\<open>parseInt\<close> of the digits.
\<close>

definition array_match :: "string \<Rightarrow> (string \<times> nat) option" where
  "array_match key =
     (case rev key of
        [] \<Rightarrow> None
      | c # r \<Rightarrow>
          if c = CHR '']'' then
            (case dropWhile is_digit r of
               [] \<Rightarrow> None
             | b # pre \<Rightarrow>
                 if b = CHR ''['' \<and> takeWhile is_digit r \<noteq> [] \<and> pre \<noteq> []
                    \<and> list_all (\<lambda>c. c \<noteq> CHR 0x0A \<and> c \<noteq> CHR 0x0D) pre
                 then Some (rev pre, nat_of_digits (rev (takeWhile is_digit r)))
                 else None)
          else None)"

text \<open>
  \<^verbatim>\<open>Object.assign(obj, value)\<close> on a record \<open>obj\<close>: the own enumerable properties
  of \<open>value\<close> are written in order; a string contributes its characters and a sequence
  its elements under their indices; other primitives and dates contribute nothing.
\<close>

fun assign_all :: "(string \<times> jsval) list \<Rightarrow> (string \<times> jsval) list \<Rightarrow> (string \<times> jsval) list" where
  "assign_all obj [] = obj"
| "assign_all obj (kv # kvs) = assign_all (AList.update (fst kv) (snd kv) obj) kvs"

fun indexed :: "nat \<Rightarrow> jsval list \<Rightarrow> (string \<times> jsval) list" where
  "indexed i [] = []"
| "indexed i (x # xs) = (string_of_nat i, x) # indexed (Suc i) xs"

fun enumerable :: "jsval \<Rightarrow> (string \<times> jsval) list" where
  "enumerable (JObj kvs) = kvs"
| "enumerable (JArr xs) = indexed 0 xs"
| "enumerable (JStr s) = indexed 0 (map (\<lambda>c. JStr [c]) s)"
| "enumerable v = []"

fun object_assign :: "jsval \<Rightarrow> jsval \<Rightarrow> jsval" where
  "object_assign (JObj obj) v = JObj (assign_all obj (enumerable v))"
| "object_assign t v = t"

text \<open>
  The loop of \<^verbatim>\<open>setChangePath\<close> over all keys but the last, with the final
  assignment.  \<open>cur\<close> is the object the loop stands on; the result is that object after
  the in-place updates below it.  A missing or falsy entry is created (an array for a
  bracketed segment, a record otherwise); an existing truthy one is entered as it is.
\<close>

definition ensure :: "jsval \<Rightarrow> string \<Rightarrow> jsval \<Rightarrow> error + jsval" where
  "ensure cur key dflt =
     (case get_prop cur key of
        Inl e \<Rightarrow> Inl e
      | Inr a \<Rightarrow> if \<not> truthy a then set_prop cur key dflt else Inr cur)"

fun set_walk :: "string list \<Rightarrow> jsval \<Rightarrow> jsval \<Rightarrow> error + jsval" where
  "set_walk [] cur v = Inr cur"
| "set_walk [lastKey] cur v = set_prop cur lastKey v"
| "set_walk (key # k2 # rest) cur v =
     (case array_match key of
        Some (arrayKey, index) \<Rightarrow>
          (case ensure cur arrayKey (JArr []) of
             Inl e \<Rightarrow> Inl e
           | Inr cur1 \<Rightarrow>
               (case get_prop cur1 arrayKey of
                  Inl e \<Rightarrow> Inl e
                | Inr arr \<Rightarrow>
                    (case ensure arr (string_of_nat index) (JObj []) of
                       Inl e \<Rightarrow> Inl e
                     | Inr arr1 \<Rightarrow>
                         (case get_prop arr1 (string_of_nat index) of
                            Inl e \<Rightarrow> Inl e
                          | Inr item \<Rightarrow>
                              (case set_walk (k2 # rest) item v of
                                 Inl e \<Rightarrow> Inl e
                               | Inr item' \<Rightarrow>
                                   (case set_prop arr1 (string_of_nat index) item' of
                                      Inl e \<Rightarrow> Inl e
                                    | Inr arr2 \<Rightarrow> set_prop cur1 arrayKey arr2))))))
      | None \<Rightarrow>
          (case ensure cur key (JObj []) of
             Inl e \<Rightarrow> Inl e
           | Inr cur1 \<Rightarrow>
               (case get_prop cur1 key of
                  Inl e \<Rightarrow> Inl e
                | Inr child \<Rightarrow>
                    (case set_walk (k2 # rest) child v of
                       Inl e \<Rightarrow> Inl e
                     | Inr child' \<Rightarrow> set_prop cur1 key child'))))"

definition setChangePath :: "jsval \<Rightarrow> string \<Rightarrow> jsval \<Rightarrow> error + jsval" where
  "setChangePath obj path v =
     (if path = [] then Inr (object_assign obj v)
      else set_walk (split_dot path) obj v)"

section \<open>differ.js: diff\<close>

record diff_options =
  compareArrays :: bool
  ignoreFields :: "string list"

definition default_options :: diff_options where
  "default_options = \<lparr> compareArrays = True, ignoreFields = [] \<rparr>"

fun own_keys :: "jsval \<Rightarrow> string list" where
  "own_keys (JObj kvs) = map fst kvs"
| "own_keys v = []"

text \<open>\<^verbatim>\<open>key in v\<close> for a record or a date \<open>v\<close> (own properties).\<close>

fun key_in :: "string \<Rightarrow> jsval \<Rightarrow> bool" where
  "key_in k (JObj kvs) = has_key kvs k"
| "key_in k v = False"

text \<open>\<^verbatim>\<open>oldVal?.[key]\<close> at a place where \<open>oldVal\<close> is a record or a date.\<close>

fun opt_get :: "jsval \<Rightarrow> string \<Rightarrow> jsval" where
  "opt_get (JObj kvs) k = obj_get kvs k"
| "opt_get v k = Undef"

definition item_path :: "string \<Rightarrow> nat \<Rightarrow> string" where
  "item_path path i =
     (if path \<noteq> [] then path @ ''['' @ string_of_nat i @ '']'' else ''['' @ string_of_nat i @ '']'')"

definition key_path :: "string \<Rightarrow> string \<Rightarrow> string" where
  "key_path path key = (if path \<noteq> [] then path @ ''.'' @ key else key)"

text \<open>The loop over the keys of \<open>oldVal\<close> that reports the deleted ones.\<close>

fun deletedKeys :: "string list \<Rightarrow> jsval \<Rightarrow> string \<Rightarrow> jsval \<Rightarrow> error + jsval" where
  "deletedKeys [] newVal path changes = Inr changes"
| "deletedKeys (key # ks) newVal path changes =
     (if \<not> key_in key newVal then
        (case setChangePath changes (key_path path key) Undef of
           Inl e \<Rightarrow> Inl e
         | Inr changes' \<Rightarrow> deletedKeys ks newVal path changes')
      else deletedKeys ks newVal path changes)"

text \<open>
  \<^verbatim>\<open>computeDiff\<close>, with the accumulator \<open>changes\<close> passed through.  \<open>diffItems\<close>
  is the loop over the indices of two sequences of equal length, \<open>diffKeys\<close> the loop
  over the keys of \<open>newVal\<close>.
\<close>

fun computeDiff :: "bool \<Rightarrow> diff_options \<Rightarrow> jsval \<Rightarrow> jsval \<Rightarrow> string \<Rightarrow> jsval \<Rightarrow> error + jsval"
  and diffItems :: "bool \<Rightarrow> diff_options \<Rightarrow> jsval list \<Rightarrow> jsval list \<Rightarrow> nat \<Rightarrow> string \<Rightarrow> jsval \<Rightarrow> error + jsval"
  and diffKeys :: "bool \<Rightarrow> diff_options \<Rightarrow> jsval \<Rightarrow> (string \<times> jsval) list \<Rightarrow> string \<Rightarrow> jsval \<Rightarrow> error + jsval"
where
  "computeDiff sh opts oldVal newVal path changes =
     (if path \<in> set (ignoreFields opts) then Inr changes
      else if strict_eq sh oldVal newVal then Inr changes
      else if js_typeof oldVal \<noteq> js_typeof newVal then setChangePath changes path newVal
      else if js_typeof newVal \<noteq> ''object'' \<or> newVal = Null then
        (if \<not> strict_eq sh oldVal newVal then setChangePath changes path newVal else Inr changes)
      else
        (case newVal of
           JArr ys \<Rightarrow>
             if \<not> compareArrays opts then
               (if stringify oldVal \<noteq> stringify newVal then setChangePath changes path newVal
                else Inr changes)
             else
               (case oldVal of
                  JArr xs \<Rightarrow>
                    if length xs \<noteq> length ys then setChangePath changes path newVal
                    else diffItems sh opts xs ys 0 path changes
                | _ \<Rightarrow> setChangePath changes path newVal)
         | JObj kvs \<Rightarrow>
             if \<not> isPlainObject oldVal then setChangePath changes path newVal
             else
               (case diffKeys sh opts oldVal kvs path changes of
                  Inl e \<Rightarrow> Inl e
                | Inr changes' \<Rightarrow> deletedKeys (own_keys oldVal) newVal path changes')
         | _ \<Rightarrow>
             if \<not> isPlainObject oldVal then setChangePath changes path newVal
             else deletedKeys (own_keys oldVal) newVal path changes))"
| "diffItems sh opts xs [] i path changes = Inr changes"
| "diffItems sh opts xs (y # ys) i path changes =
     (case computeDiff sh opts (case xs of [] \<Rightarrow> Undef | x # _ \<Rightarrow> x) y (item_path path i) changes of
        Inl e \<Rightarrow> Inl e
      | Inr changes' \<Rightarrow> diffItems sh opts (tl xs) ys (Suc i) path changes')"
| "diffKeys sh opts oldVal [] path changes = Inr changes"
| "diffKeys sh opts oldVal (kv # kvs) path changes =
     (case computeDiff sh opts (opt_get oldVal (fst kv)) (snd kv) (key_path path (fst kv)) changes of
        Inl e \<Rightarrow> Inl e
      | Inr changes' \<Rightarrow> diffKeys sh opts oldVal kvs path changes')"

definition diff :: "bool \<Rightarrow> jsval \<Rightarrow> jsval \<Rightarrow> diff_options \<Rightarrow> error + jsval" where
  "diff sh original current opts = computeDiff sh opts original current [] (JObj [])"

section \<open>Well-formed value trees\<close>

text \<open>
  A record has each key once.  The association lists that stand for records are
  well formed when this holds at every level.
\<close>

fun wf_val :: "jsval \<Rightarrow> bool"
  and wf_items :: "jsval list \<Rightarrow> bool"
  and wf_fields :: "(string \<times> jsval) list \<Rightarrow> bool" where
  "wf_val (JArr xs) = wf_items xs"
| "wf_val (JObj kvs) = (distinct (map fst kvs) \<and> wf_fields kvs)"
| "wf_val v = True"
| "wf_items [] = True"
| "wf_items (x # xs) = (wf_val x \<and> wf_items xs)"
| "wf_fields [] = True"
| "wf_fields (kv # kvs) = (wf_val (snd kv) \<and> wf_fields kvs)"



section \<open>utils.js\<close>

text \<open>\<^verbatim>\<open>getNestedValue\<close>: a dotted read that stops with \<^verbatim>\<open>undefined\<close> at a missing step.\<close>

fun get_nested :: "string list \<Rightarrow> jsval \<Rightarrow> jsval" where
  "get_nested [] cur = cur"
| "get_nested (key # rest) cur =
     (if cur = Null \<or> cur = Undef then Undef
      else (case get_prop cur key of Inl e \<Rightarrow> Undef | Inr c \<Rightarrow> get_nested rest c))"

definition getNestedValue :: "jsval \<Rightarrow> string \<Rightarrow> jsval" where
  "getNestedValue obj path = get_nested (split_dot path) obj"

text \<open>
  \<^verbatim>\<open>setNestedValue\<close>: every step but the last enters the record at the key, after
  replacing a missing, falsy or non-record entry by an empty record; the last key is
  assigned.  The result is \<open>obj\<close> after the in-place updates.
\<close>

fun set_nested :: "string list \<Rightarrow> jsval \<Rightarrow> jsval \<Rightarrow> error + jsval" where
  "set_nested [] cur v = Inr cur"
| "set_nested [lastKey] cur v = set_prop cur lastKey v"
| "set_nested (key # k2 # rest) cur v =
     (case get_prop cur key of
        Inl e \<Rightarrow> Inl e
      | Inr c \<Rightarrow>
          (case (if \<not> truthy c \<or> \<not> isPlainObject c then set_prop cur key (JObj []) else Inr cur) of
             Inl e \<Rightarrow> Inl e
           | Inr cur1 \<Rightarrow>
               (case get_prop cur1 key of
                  Inl e \<Rightarrow> Inl e
                | Inr child \<Rightarrow>
                    (case set_nested (k2 # rest) child v of
                       Inl e \<Rightarrow> Inl e
                     | Inr child' \<Rightarrow> set_prop cur1 key child'))))"

definition setNestedValue :: "jsval \<Rightarrow> string \<Rightarrow> jsval \<Rightarrow> error + jsval" where
  "setNestedValue obj path v = set_nested (split_dot path) obj v"

text \<open>
  \<^verbatim>\<open>invertMapping\<close>.  \<open>invert_fields\<close> is the outer loop of \<^verbatim>\<open>invert\<close> over the
  keys of \<open>source\<close>, \<open>invert_nested\<close> the inner loop over the keys of a nested record.
  For a record below a nested record the inner loop seeds \<open>target\<close> with an empty
  record at the nested key and calls \<^verbatim>\<open>invert\<close> on the one-key record
  \<^verbatim>\<open>{[nestedKey]: nestedValue}\<close>.
\<close>

function invert_fields :: "(string \<times> jsval) list \<Rightarrow> (string \<times> jsval) list \<Rightarrow> (string \<times> jsval) list"
  and invert_nested :: "string \<Rightarrow> (string \<times> jsval) list \<Rightarrow> (string \<times> jsval) list \<Rightarrow> (string \<times> jsval) list" where
  "invert_fields [] target = target"
| "invert_fields (kv # rest) target =
     (if isPlainObject (snd kv) then
        invert_fields rest (invert_nested (fst kv) (enumerable (snd kv)) target)
      else
        (case snd kv of
           JStr s \<Rightarrow> invert_fields rest (AList.update s (JStr (fst kv)) target)
         | _ \<Rightarrow> invert_fields rest target))"
| "invert_nested key [] target = target"
| "invert_nested key (nkv # rest) target =
     (case snd nkv of
        JStr s \<Rightarrow> invert_nested key rest (AList.update s (JStr (key @ ''.'' @ fst nkv)) target)
      | _ \<Rightarrow>
          if isPlainObject (snd nkv) then
            invert_nested key rest
              (invert_fields [nkv]
                 (if \<not> truthy (obj_get target (fst nkv))
                  then AList.update (fst nkv) (JObj []) target else target))
          else invert_nested key rest target)"
  by pat_completeness auto

termination invert_fields
proof -
  have sz: "size_list (\<lambda>p. size (snd p)) (enumerable v) \<le> size v" if "isPlainObject v" for v
  proof (cases v)
    case (JObj kvs)
    have "size_list (\<lambda>p. size (snd p)) kvs \<le> size_list (size_prod (\<lambda>x. 0) size) kvs"
      by (induction kvs) (auto simp: size_prod_simp)
    then show ?thesis using JObj by simp
  qed (use that in \<open>auto simp: isPlainObject_def\<close>)
  show ?thesis
    apply (relation "measure (\<lambda>x. case x of
          Inl (kvs, t) \<Rightarrow> 2 * size_list (\<lambda>p. size (snd p)) kvs
        | Inr (k, kvs, t) \<Rightarrow> 2 * size_list (\<lambda>p. size (snd p)) kvs + 1)")
      apply auto
    subgoal for b rest using sz [of b] by simp
    done
qed

definition invertMapping :: "jsval \<Rightarrow> jsval" where
  "invertMapping mapping = JObj (invert_fields (enumerable mapping) [])"

text \<open>\<^verbatim>\<open>deepClone\<close>.\<close>

fun deepClone :: "jsval \<Rightarrow> jsval"
  and deepClone_items :: "jsval list \<Rightarrow> jsval list"
  and deepClone_fields :: "(string \<times> jsval) list \<Rightarrow> (string \<times> jsval) list \<Rightarrow> (string \<times> jsval) list" where
  "deepClone (JArr xs) = JArr (deepClone_items xs)"
| "deepClone (JObj kvs) = JObj (deepClone_fields kvs [])"
| "deepClone (JDate d) = JObj []"
| "deepClone v = v"
| "deepClone_items [] = []"
| "deepClone_items (x # xs) = deepClone x # deepClone_items xs"
| "deepClone_fields [] cloned = cloned"
| "deepClone_fields (kv # kvs) cloned = deepClone_fields kvs (AList.update (fst kv) (deepClone (snd kv)) cloned)"


section \<open>denormalizer.js\<close>

record denorm_options =
  omitUndefined :: bool
  omitNull :: bool
  transform :: "string \<Rightarrow> (jsval \<Rightarrow> jsval \<Rightarrow> jsval) option"

text \<open>
  The loop of \<^verbatim>\<open>processFormData\<close> over the entries of the inverted mapping.  An
  entry whose value is not a string has no \<^verbatim>\<open>includes\<close> method, so reaching the
  test on it throws.
\<close>

fun processFormData :: "denorm_options \<Rightarrow> jsval \<Rightarrow> (string \<times> jsval) list \<Rightarrow> jsval \<Rightarrow> error + jsval" where
  "processFormData opts source [] apiPayload = Inr apiPayload"
| "processFormData opts source (entry # rest) apiPayload =
     (let formKey = fst entry; apiPath = snd entry; v = getNestedValue source formKey in
      if omitUndefined opts \<and> v = Undef then processFormData opts source rest apiPayload
      else if omitNull opts \<and> v = Null then processFormData opts source rest apiPayload
      else
        (let v' = (case transform opts formKey of Some f \<Rightarrow> f v source | None \<Rightarrow> v) in
         case apiPath of
           JStr p \<Rightarrow>
             (case (if CHR ''.'' \<in> set p then setNestedValue apiPayload p v'
                    else set_prop apiPayload p v') of
                Inl e \<Rightarrow> Inl e
              | Inr apiPayload' \<Rightarrow> processFormData opts source rest apiPayload')
         | _ \<Rightarrow> Inl TypeError))"

definition denormalize :: "jsval \<Rightarrow> jsval \<Rightarrow> denorm_options \<Rightarrow> error + jsval" where
  "denormalize formData mapping opts =
     processFormData opts formData (enumerable (invertMapping mapping)) (JObj [])"

definition denormalizeForPost :: "jsval \<Rightarrow> jsval \<Rightarrow> denorm_options \<Rightarrow> error + jsval" where
  "denormalizeForPost formData mapping opts =
     denormalize formData mapping (opts\<lparr>omitUndefined := False, omitNull := False\<rparr>)"


definition no_transform :: "string \<Rightarrow> (jsval \<Rightarrow> jsval \<Rightarrow> jsval) option" where
  "no_transform = (\<lambda>k. None)"

definition default_denorm :: denorm_options where
  "default_denorm = \<lparr> omitUndefined = True, omitNull = False, transform = no_transform \<rparr>"

section \<open>payloadBuilder.js\<close>

text \<open>
  A validator returns whether the value is valid and, if not, the messages.  The
  exception of a failed validation carries the messages joined by a comma and a space.
\<close>

datatype build_error = Thrown error | ValidationFailed string


definition lift_error :: "error + jsval \<Rightarrow> build_error + jsval" where
  "lift_error r = (case r of Inl e \<Rightarrow> Inl (Thrown e) | Inr v \<Rightarrow> Inr v)"



section \<open>normalizer.js\<close>

text \<open>
  \<^verbatim>\<open>coerceType\<close> asks the host language two questions about a string: what
  \<^verbatim>\<open>Number\<close> makes of it, and whether \<^verbatim>\<open>new Date\<close> parses it.  The answers are
  modelled where they are certain and representable.

  \<^verbatim>\<open>Number(s)\<close> follows the grammar of string numeric literals: between white
  space, a radix literal (\<^verbatim>\<open>0x\<close>, \<^verbatim>\<open>0o\<close>, \<^verbatim>\<open>0b\<close>), or an optionally signed
  \<^verbatim>\<open>Infinity\<close> or decimal literal with optional fraction and exponent.  A string
  that is an optionally signed run of decimal digits is that integer (\<open>IntLit\<close>).  A
  string that is only white space, that is not a numeric literal, or that is an
  infinity does not pass the test of the first rule (\<open>NoNumber\<close>).  The value of any
  other numeric literal (a fraction, an exponent, a radix literal) is not an integer of
  the model, and the white space of a string with non-ASCII bytes is not decided:
  these are \<open>OtherNumeric\<close>.
\<close>

datatype numclass = IntLit int | NoNumber | OtherNumeric

definition ascii_space :: "char \<Rightarrow> bool" where
  "ascii_space c = ((of_char c :: nat) \<in> {9, 10, 11, 12, 13, 32})"

definition trim_ascii :: "string \<Rightarrow> string" where
  "trim_ascii s = rev (dropWhile ascii_space (rev (dropWhile ascii_space s)))"

definition strip_sign :: "string \<Rightarrow> string" where
  "strip_sign t = (case t of [] \<Rightarrow> [] | c # r \<Rightarrow> if c = CHR ''-'' \<or> c = CHR ''+'' then r else t)"

definition exp_part :: "string \<Rightarrow> bool" where
  "exp_part r =
     (case r of
        [] \<Rightarrow> False
      | c # r' \<Rightarrow> (c = CHR ''e'' \<or> c = CHR ''E'') \<and> strip_sign r' \<noteq> [] \<and> list_all is_digit (strip_sign r'))"

definition decimal_body :: "string \<Rightarrow> bool" where
  "decimal_body u =
     (let ip = takeWhile is_digit u; r1 = dropWhile is_digit u;
          fp = (case r1 of [] \<Rightarrow> [] | c # r \<Rightarrow> if c = CHR ''.'' then takeWhile is_digit r else []);
          r2 = (case r1 of [] \<Rightarrow> [] | c # r \<Rightarrow> if c = CHR ''.'' then dropWhile is_digit r else r1)
      in (ip \<noteq> [] \<or> fp \<noteq> []) \<and> (r2 = [] \<or> exp_part r2))"

definition radix_literal :: "string \<Rightarrow> bool" where
  "radix_literal t =
     (case t of
        z # x # ds \<Rightarrow>
          z = CHR ''0'' \<and> ds \<noteq> [] \<and>
          ((x \<in> set ''xX'' \<and> list_all (\<lambda>c. is_digit c \<or> c \<in> set ''abcdefABCDEF'') ds)
           \<or> (x \<in> set ''oO'' \<and> list_all (\<lambda>c. c \<in> set ''01234567'') ds)
           \<or> (x \<in> set ''bB'' \<and> list_all (\<lambda>c. c \<in> set ''01'') ds))
      | _ \<Rightarrow> False)"

definition int_literal :: "string \<Rightarrow> int option" where
  "int_literal t =
     (case t of
        [] \<Rightarrow> None
      | c # ds \<Rightarrow>
          if (c = CHR ''-'' \<or> c = CHR ''+'') \<and> ds \<noteq> [] \<and> list_all is_digit ds
          then Some (if c = CHR ''-'' then - int (nat_of_digits ds) else int (nat_of_digits ds))
          else if list_all is_digit t then Some (int (nat_of_digits t))
          else None)"

definition classify_number :: "string \<Rightarrow> numclass" where
  "classify_number s =
     (case int_literal (trim_ascii s) of
        Some n \<Rightarrow> IntLit n
      | None \<Rightarrow>
          if list_ex (\<lambda>c. (of_char c :: nat) \<ge> 128) s then OtherNumeric
          else if trim_ascii s = [] then NoNumber
          else if strip_sign (trim_ascii s) = ''Infinity'' then NoNumber
          else if radix_literal (trim_ascii s) \<or> decimal_body (strip_sign (trim_ascii s)) then OtherNumeric
          else NoNumber)"

text \<open>The test \<^verbatim>\<open>/^\d{4}-\d{2}-\d{2}T/\<close>.\<close>

definition date_prefix :: "string \<Rightarrow> bool" where
  "date_prefix s =
     (length s \<ge> 11 \<and> list_all is_digit (take 4 s) \<and> s ! 4 = CHR ''-''
      \<and> list_all is_digit (take 2 (drop 5 s)) \<and> s ! 7 = CHR ''-''
      \<and> list_all is_digit (take 2 (drop 8 s)) \<and> s ! 10 = CHR ''T'')"

text \<open>
  \<^verbatim>\<open>new Date(s)\<close>: the UTC forms \<^verbatim>\<open>YYYY-MM-DDTHH:mm:ssZ\<close> and
  \<^verbatim>\<open>YYYY-MM-DDTHH:mm:ss.sssZ\<close> with month 01 to 12, day 01 to 28, hour 00 to 23,
  minute and second 00 to 59 are valid in every engine, and the date prints as the
  second form.  What other strings parse to is left to the engine and not represented.
\<close>

definition two_digits :: "string \<Rightarrow> nat \<Rightarrow> nat \<Rightarrow> bool" where
  "two_digits ds lo hi =
     (length ds = 2 \<and> list_all is_digit ds \<and> lo \<le> nat_of_digits ds \<and> nat_of_digits ds \<le> hi)"

definition known_date :: "string \<Rightarrow> string option" where
  "known_date s =
     (if date_prefix s
         \<and> two_digits (take 2 (drop 5 s)) 1 12 \<and> two_digits (take 2 (drop 8 s)) 1 28
         \<and> two_digits (take 2 (drop 11 s)) 0 23 \<and> take 1 (drop 13 s) = '':''
         \<and> two_digits (take 2 (drop 14 s)) 0 59 \<and> take 1 (drop 16 s) = '':''
         \<and> two_digits (take 2 (drop 17 s)) 0 59
      then
        (if drop 19 s = ''Z'' then Some (take 19 s @ ''.000Z'')
         else if length s = 24 \<and> s ! 19 = CHR ''.'' \<and> list_all is_digit (take 3 (drop 20 s))
                 \<and> s ! 23 = CHR ''Z''
         then Some s else None)
      else None)"

definition coerceType :: "jsval \<Rightarrow> error + jsval" where
  "coerceType v =
     (case v of
        JStr s \<Rightarrow>
          (case classify_number s of
             IntLit n \<Rightarrow> Inr (JNum n)
           | OtherNumeric \<Rightarrow> Inl OutsideModel
           | NoNumber \<Rightarrow>
               if s = ''true'' then Inr (JBool True)
               else if s = ''false'' then Inr (JBool False)
               else if date_prefix s then
                 (case known_date s of Some d \<Rightarrow> Inr (JDate d) | None \<Rightarrow> Inl OutsideModel)
               else Inr v)
      | _ \<Rightarrow> Inr v)"

record norm_options =
  typeCoercion :: bool
  defaultValues :: jsval
  norm_transform :: "string \<Rightarrow> (jsval \<Rightarrow> jsval \<Rightarrow> jsval) option"

text \<open>\<^verbatim>\<open>source?.[apiKey]\<close>.\<close>

definition opt_chain :: "jsval \<Rightarrow> string \<Rightarrow> jsval" where
  "opt_chain source k =
     (if source = Null \<or> source = Undef then Undef
      else (case get_prop source k of Inl e \<Rightarrow> Undef | Inr v \<Rightarrow> v))"

text \<open>
  \<^verbatim>\<open>processMapping\<close>, with the record \<open>formData\<close> of the enclosing \<^verbatim>\<open>normalize\<close>
  passed through.  \<open>processItems\<close> is the \<^verbatim>\<open>map\<close> over the items of a source
  sequence: each call writes into the same \<open>formData\<close>, and the sequence stored
  afterwards holds a fresh empty record per item.
\<close>

function processMapping :: "norm_options \<Rightarrow> jsval \<Rightarrow> (string \<times> jsval) list \<Rightarrow> jsval \<Rightarrow> error + jsval"
  and processItems :: "norm_options \<Rightarrow> jsval list \<Rightarrow> (string \<times> jsval) list \<Rightarrow> jsval \<Rightarrow> error + jsval" where
  "processMapping opts source [] formData = Inr formData"
| "processMapping opts source (entry # rest) formData =
     (case snd entry of
        JStr formKey \<Rightarrow>
          (case (let v = (case norm_transform opts formKey of
                            Some f \<Rightarrow> f (opt_chain source (fst entry)) source
                          | None \<Rightarrow> opt_chain source (fst entry))
                 in if typeCoercion opts \<and> v \<noteq> Null \<and> v \<noteq> Undef then coerceType v else Inr v) of
             Inl e \<Rightarrow> Inl e
           | Inr v \<Rightarrow>
               if v \<noteq> Undef then
                 (case setNestedValue formData formKey v of
                    Inl e \<Rightarrow> Inl e
                  | Inr formData' \<Rightarrow> processMapping opts source rest formData')
               else processMapping opts source rest formData)
      | JArr ms \<Rightarrow>
          (case opt_chain source (fst entry) of
             JArr items \<Rightarrow>
               if isPlainObject (case ms of [] \<Rightarrow> Undef | m # _ \<Rightarrow> m) then
                 (case processItems opts items (enumerable (case ms of [] \<Rightarrow> Undef | m # _ \<Rightarrow> m)) formData of
                    Inl e \<Rightarrow> Inl e
                  | Inr formData' \<Rightarrow>
                      (case set_prop formData' (fst entry) (JArr (map (\<lambda>item. JObj []) items)) of
                         Inl e \<Rightarrow> Inl e
                       | Inr formData'' \<Rightarrow> processMapping opts source rest formData''))
               else
                 (case set_prop formData (fst entry) (JArr items) of
                    Inl e \<Rightarrow> Inl e
                  | Inr formData' \<Rightarrow> processMapping opts source rest formData')
           | _ \<Rightarrow> processMapping opts source rest formData)
      | _ \<Rightarrow>
          if isPlainObject (snd entry) then
            (if isPlainObject (opt_chain source (fst entry)) then
               (case processMapping opts (opt_chain source (fst entry)) (enumerable (snd entry)) formData of
                  Inl e \<Rightarrow> Inl e
                | Inr formData' \<Rightarrow> processMapping opts source rest formData')
             else processMapping opts source rest formData)
          else processMapping opts source rest formData)"
| "processItems opts [] itemMapping formData = Inr formData"
| "processItems opts (item # items) itemMapping formData =
     (case processMapping opts item itemMapping formData of
        Inl e \<Rightarrow> Inl e
      | Inr formData' \<Rightarrow> processItems opts items itemMapping formData')"
  by pat_completeness auto

termination processMapping
proof -
  have sz: "size_list (\<lambda>p. size (snd p)) (enumerable v) \<le> size v" if "isPlainObject v" for v
  proof (cases v)
    case (JObj kvs)
    have "size_list (\<lambda>p. size (snd p)) kvs \<le> size_list (size_prod (\<lambda>x. 0) size) kvs"
      by (induction kvs) (auto simp: size_prod_simp)
    then show ?thesis using JObj by simp
  qed (use that in \<open>auto simp: isPlainObject_def\<close>)
  show ?thesis
    apply (relation "inv_image (less_than <*lex*> less_than) (\<lambda>x. case x of
          Inl (opts, src, es, fd) \<Rightarrow> (size_list (\<lambda>p. size (snd p)) es, 0)
        | Inr (opts, items, es, fd) \<Rightarrow> (size_list (\<lambda>p. size (snd p)) es, length items + 1))")
          apply auto
    subgoal for source a rest ms items using sz [of "case ms of [] \<Rightarrow> Undef | m # _ \<Rightarrow> m"]
      by (cases ms) (auto simp: isPlainObject_def)
    subgoal for source a rest kvs using sz [of "JObj kvs"] by simp
    done
qed

definition normalize :: "jsval \<Rightarrow> jsval \<Rightarrow> norm_options \<Rightarrow> error + jsval" where
  "normalize apiData mapping opts =
     processMapping opts apiData (enumerable mapping)
       (JObj (assign_all [] (enumerable (defaultValues opts))))"


section \<open>utils.js: deepMerge\<close>




section \<open>Mapper.js\<close>

text \<open>
  A property of a configuration object is absent, present with the value
  \<^verbatim>\<open>undefined\<close>, or present with a value.  A destructuring default applies in the
  first two cases; an object spread copies the property in the last two.
\<close>

datatype 'a property = Absent | Undefined | Present 'a















section \<open>Addresses in a change tree\<close>

text \<open>
  \<^verbatim>\<open>setChangePath\<close> turns a path into steps through the change tree: a record key,
  or the index of an array element.  A bracketed segment that is not the last one is
  the key of an array followed by an index; the last segment is always a literal key.
\<close>

datatype step = K string | I nat

definition nf :: "string \<Rightarrow> step list" where
  "nf s = (case array_match s of Some (arrayKey, index) \<Rightarrow> [K arrayKey, I index] | None \<Rightarrow> [K s])"

fun leaf_addr :: "string list \<Rightarrow> step list" where
  "leaf_addr [] = []"
| "leaf_addr [s] = [K s]"
| "leaf_addr (s # s' # r) = nf s @ leaf_addr (s' # r)"

text \<open>The own property that a list of steps leads to, if every step exists.\<close>

fun rd :: "step list \<Rightarrow> jsval \<Rightarrow> jsval option" where
  "rd [] v = Some v"
| "rd (K k # r) (JObj kvs) = (case map_of kvs k of None \<Rightarrow> None | Some c \<Rightarrow> rd r c)"
| "rd (I i # r) (JArr xs) = (if i < length xs then rd r (xs ! i) else None)"
| "rd (s # r) v = None"

text \<open>\<^verbatim>\<open>xs[i]\<close> on an array.\<close>

definition elem :: "jsval list \<Rightarrow> nat \<Rightarrow> jsval" where
  "elem xs i = (if i < length xs then xs ! i else Undef)"

text \<open>The container that the walk creates before a step.\<close>

fun fresh :: "step list \<Rightarrow> jsval" where
  "fresh (I i # r) = JArr []"
| "fresh r = JObj []"

definition sub :: "jsval \<Rightarrow> step list \<Rightarrow> jsval" where
  "sub c r = (if truthy c then c else fresh r)"

text \<open>The write along a list of steps, as a function on trees.\<close>

fun wr :: "step list \<Rightarrow> jsval \<Rightarrow> jsval \<Rightarrow> jsval" where
  "wr [] node v = node"
| "wr (K k # r) (JObj kvs) v =
     (if r = [] then JObj (AList.update k v kvs)
      else JObj (AList.update k (wr r (sub (obj_get kvs k) r) v) kvs))"
| "wr (I i # r) (JArr xs) v =
     JArr (ext_set xs i (wr r (sub (elem xs i) r) v))"
| "wr (s # r) node v = node"

text \<open>
  Steps are well formed when they end in a key and every index stands between two
  keys.  A tree admits well-formed steps when every container that exists along them
  is of the kind the next step needs.
\<close>

fun wf_addr :: "step list \<Rightarrow> bool" where
  "wf_addr [K k] = True"
| "wf_addr (K k # K k' # r) = wf_addr (K k' # r)"
| "wf_addr (K k # I i # K k' # r) = wf_addr (K k' # r)"
| "wf_addr r = False"

fun admits :: "step list \<Rightarrow> jsval \<Rightarrow> bool" where
  "admits (K k # r) (JObj kvs) = (r = [] \<or> (truthy (obj_get kvs k) \<longrightarrow> admits r (obj_get kvs k)))"
| "admits (I i # r) (JArr xs) = (r \<noteq> [] \<and> (truthy (elem xs i) \<longrightarrow> admits r (elem xs i)))"
| "admits r v = False"

text \<open>Two lists of steps part ways at some step, before either has ended.\<close>

fun wf_cont :: "step list \<Rightarrow> bool" where
  "wf_cont (K k # r) = wf_addr (K k # r)"
| "wf_cont (I i # K k # r) = wf_addr (K k # r)"
| "wf_cont r = False"

fun indep :: "step list \<Rightarrow> step list \<Rightarrow> bool" where
  "indep (K k # r) (K k' # r') = (k \<noteq> k' \<or> (r \<noteq> [] \<and> r' \<noteq> [] \<and> indep r r'))"
| "indep (I i # r) (I j # r') = (i \<noteq> j \<or> (r \<noteq> [] \<and> r' \<noteq> [] \<and> indep r r'))"
| "indep r r' = False"


section \<open>Paths as segments\<close>

text \<open>
  The segments of a path, with no segment for the root path.  A record key is simple
  when it is not empty and has neither a dot nor an opening bracket, so that it is one
  segment of every path through it and is not read as an array segment.
\<close>

definition psegs :: "string \<Rightarrow> string list" where
  "psegs p = (if p = [] then [] else split_dot p)"









text \<open>A list of writes, applied in order as \<^verbatim>\<open>setChangePath\<close> does.\<close>

fun apply_log :: "(string \<times> jsval) list \<Rightarrow> jsval \<Rightarrow> error + jsval" where
  "apply_log [] changes = Inr changes"
| "apply_log (e # es) changes =
     (case setChangePath changes (fst e) (snd e) of
        Inl x \<Rightarrow> Inl x
      | Inr changes' \<Rightarrow> apply_log es changes')"

definition addr :: "string \<Rightarrow> step list" where
  "addr p = leaf_addr (psegs p)"


section \<open>The writes of a comparison\<close>



section \<open>The pairs a comparison reaches\<close>



section \<open>Mapped paths and the round trip\<close>

text \<open>
  The value a tree holds at a path of record keys; \<^verbatim>\<open>undefined\<close> where a key is
  missing or a step does not stand on a record.
\<close>

fun at_path :: "string list \<Rightarrow> jsval \<Rightarrow> jsval" where
  "at_path [] v = v"
| "at_path (k # ks) (JObj kvs) = at_path ks (obj_get kvs k)"
| "at_path (k # ks) v = Undef"

text \<open>
  A path is free in a tree when it leads through records to a key that is not there;
  it is clean when it leads through records only, as far as it goes.  Two paths are
  apart when they differ at some key before either ends.
\<close>

fun frees :: "string list \<Rightarrow> jsval \<Rightarrow> bool" where
  "frees (k # r) (JObj kvs) = (case map_of kvs k of None \<Rightarrow> True | Some c \<Rightarrow> r \<noteq> [] \<and> frees r c)"
| "frees r v = False"

fun clean :: "string list \<Rightarrow> jsval \<Rightarrow> bool" where
  "clean [] v = True"
| "clean (k # r) (JObj kvs) = (case map_of kvs k of None \<Rightarrow> True | Some c \<Rightarrow> clean r c)"
| "clean (k # r) v = False"

fun apart :: "string list \<Rightarrow> string list \<Rightarrow> bool" where
  "apart (k # r) (k' # r') = (k \<noteq> k' \<or> apart r r')"
| "apart r r' = False"

fun all_apart :: "string list list \<Rightarrow> bool" where
  "all_apart [] = True"
| "all_apart (a # as) = ((\<forall>b \<in> set as. apart a b) \<and> all_apart as)"

text \<open>A list of assignments by path, applied in order as \<^verbatim>\<open>setNestedValue\<close> does.\<close>

fun apply_sets :: "(string list \<times> jsval) list \<Rightarrow> jsval \<Rightarrow> error + jsval" where
  "apply_sets [] obj = Inr obj"
| "apply_sets (w # ws) obj =
     (case set_nested (fst w) obj (snd w) of
        Inl e \<Rightarrow> Inl e
      | Inr obj' \<Rightarrow> apply_sets ws obj')"

text \<open>
  A mapping tree with at most one level of nesting: every entry is a target name, an
  array form, or a record whose entries are target names or array forms.  Keys occur
  once in a record and have no dot.
\<close>

definition dotfree :: "string \<Rightarrow> bool" where
  "dotfree k = (CHR ''.'' \<notin> set k)"

fun leaf_form :: "jsval \<Rightarrow> bool" where
  "leaf_form (JStr t) = True"
| "leaf_form (JArr ms) = True"
| "leaf_form v = False"

fun entry_form :: "jsval \<Rightarrow> bool" where
  "entry_form (JObj nkvs) =
     (distinct (map fst nkvs) \<and> list_all (\<lambda>nkv. dotfree (fst nkv) \<and> leaf_form (snd nkv)) nkvs)"
| "entry_form v = leaf_form v"

definition two_level :: "(string \<times> jsval) list \<Rightarrow> bool" where
  "two_level mkvs =
     (distinct (map fst mkvs) \<and> list_all (\<lambda>kv. dotfree (fst kv) \<and> entry_form (snd kv)) mkvs)"

text \<open>
  The mapped source paths of such a tree, each with its target name, in the order of
  the traversal.
\<close>

fun pairs_nested :: "string \<Rightarrow> (string \<times> jsval) list \<Rightarrow> (string list \<times> string) list" where
  "pairs_nested key [] = []"
| "pairs_nested key (nkv # rest) =
     (case snd nkv of JStr t \<Rightarrow> [([key, fst nkv], t)] | _ \<Rightarrow> []) @ pairs_nested key rest"

fun pairs_top :: "(string \<times> jsval) list \<Rightarrow> (string list \<times> string) list" where
  "pairs_top [] = []"
| "pairs_top (kv # rest) =
     (case snd kv of
        JStr t \<Rightarrow> [([fst kv], t)]
      | JObj nkvs \<Rightarrow> pairs_nested (fst kv) nkvs
      | _ \<Rightarrow> []) @ pairs_top rest"

text \<open>
  The source has no sequence where the mapping has an array form (with one, the
  normalizer maps element-wise).
\<close>

fun no_sequence_nested :: "jsval \<Rightarrow> (string \<times> jsval) list \<Rightarrow> bool" where
  "no_sequence_nested src [] = True"
| "no_sequence_nested src (nkv # rest) =
     ((case snd nkv of JArr ms \<Rightarrow> \<not> isArray (opt_chain src (fst nkv)) | _ \<Rightarrow> True)
      \<and> no_sequence_nested src rest)"

fun no_sequence_top :: "jsval \<Rightarrow> (string \<times> jsval) list \<Rightarrow> bool" where
  "no_sequence_top src [] = True"
| "no_sequence_top src (kv # rest) =
     ((case snd kv of
         JArr ms \<Rightarrow> \<not> isArray (opt_chain src (fst kv))
       | JObj nkvs \<Rightarrow> no_sequence_nested (opt_chain src (fst kv)) nkvs
       | _ \<Rightarrow> True)
      \<and> no_sequence_top src rest)"

definition plain_norm :: norm_options where
  "plain_norm = \<lparr> typeCoercion = False, defaultValues = JObj [], norm_transform = no_transform \<rparr>"

text \<open>
  The assignments either direction makes for a list of mapped paths: one per path
  whose value is not \<^verbatim>\<open>undefined\<close>, at the address \<open>f\<close> gives.  \<open>inverted\<close> is the
  inverted mapping such a list stands for.
\<close>

definition writes ::
  "(string list \<times> string \<Rightarrow> string list) \<Rightarrow> (string list \<times> string \<Rightarrow> jsval)
     \<Rightarrow> (string list \<times> string) list \<Rightarrow> (string list \<times> jsval) list" where
  "writes f val ps = map (\<lambda>p. (f p, val p)) (filter (\<lambda>p. val p \<noteq> Undef) ps)"

definition inverted :: "(string list \<times> string) list \<Rightarrow> (string \<times> jsval) list" where
  "inverted ps = map (\<lambda>p. (snd p, JStr (join_with ''.'' (fst p)))) ps"

section \<open>Properties of the differ\<close>

declare computeDiff.simps [simp del]

lemma wf_items_iff: "wf_items xs = (\<forall>x \<in> set xs. wf_val x)"
  by (induction xs) auto

lemma wf_fields_iff: "wf_fields kvs = (\<forall>kv \<in> set kvs. wf_val (snd kv))"
  by (induction kvs) auto

lemma deletedKeys_present:
  "set ks \<subseteq> fst ` set kvs \<Longrightarrow> deletedKeys ks (JObj kvs) path ch = Inr ch"
  by (induction ks) (auto simp: has_key_def map_of_eq_None_iff)

lemma diffItems_same:
  "(\<And>x p c. x \<in> set xs \<Longrightarrow> computeDiff sh opts x x p c = Inr c)
   \<Longrightarrow> diffItems sh opts xs xs i path ch = Inr ch"
  by (induction xs arbitrary: i ch) auto

lemma diffKeys_same:
  "(\<And>k v p c. (k, v) \<in> set kvs \<Longrightarrow> computeDiff sh opts v v p c = Inr c)
   \<Longrightarrow> distinct (map fst kvs0) \<Longrightarrow> set kvs \<subseteq> set kvs0
   \<Longrightarrow> diffKeys sh opts (JObj kvs0) kvs path ch = Inr ch"
proof (induction kvs arbitrary: ch)
  case Nil
  then show ?case by simp
next
  case (Cons kv kvs)
  obtain k v where kv: "kv = (k, v)" by (cases kv)
  from Cons.prems kv have "map_of kvs0 k = Some v" by simp
  then have g: "opt_get (JObj kvs0) k = v" by (simp add: obj_get_def)
  have "computeDiff sh opts v v (key_path path k) ch = Inr ch"
    using Cons.prems(1) [of k v] kv by simp
  moreover have "diffKeys sh opts (JObj kvs0) kvs path ch = Inr ch"
  proof (rule Cons.IH)
    fix k v p c assume "(k, v) \<in> set kvs"
    then show "computeDiff sh opts v v p c = Inr c" using Cons.prems(1) [of k v p c] by auto
  qed (use Cons.prems in auto)
  ultimately show ?case using kv g by simp
qed

lemma computeDiff_same:
  "wf_val v \<Longrightarrow> computeDiff sh opts v v path ch = Inr ch"
proof (induction v arbitrary: path ch)
  case (JArr xs)
  have "diffItems sh opts xs xs 0 path ch = Inr ch"
    using JArr by (intro diffItems_same) (auto simp: wf_items_iff)
  then show ?case by (simp add: computeDiff.simps [of _ _ "JArr xs"])
next
  case (JObj kvs)
  have "diffKeys sh opts (JObj kvs) kvs path ch = Inr ch"
  proof (rule diffKeys_same)
    fix k v p c assume "(k, v) \<in> set kvs"
    then show "computeDiff sh opts v v p c = Inr c"
      using JObj by (force simp: wf_fields_iff)
  qed (use JObj.prems in auto)
  moreover have "deletedKeys (map fst kvs) (JObj kvs) path ch = Inr ch"
    by (rule deletedKeys_present) simp
  ultimately show ?case
    by (simp add: computeDiff.simps [of _ _ "JObj kvs"] isPlainObject_def)
qed (simp_all add: computeDiff.simps strict_eq_def isPlainObject_def)

text \<open>
  Claim C6.  For every value tree \<open>x\<close>, \<^verbatim>\<open>diff(x, x)\<close> returns the empty change tree
  \<^verbatim>\<open>{}\<close>: it returns normally, with no entry.  This holds whether the two arguments
  are one reference or two equal copies, and for every setting of the options, the
  default ones among them.
\<close>

theorem diff_same_is_empty:
  "wf_val x \<Longrightarrow> diff sh x x default_options = Inr (JObj []) \<and> diff sh x x opts = Inr (JObj [])"
  by (simp add: diff_def computeDiff_same)

theorem diff_same_is_empty_witness:
  "wf_val (JObj [(''a'', JNum 1), (''items'', JArr [JObj [(''id'', JStr ''x'')], Null])])
   \<and> diff False (JObj [(''a'', JNum 1), (''items'', JArr [JObj [(''id'', JStr ''x'')], Null])])
        (JObj [(''a'', JNum 1), (''items'', JArr [JObj [(''id'', JStr ''x'')], Null])])
        default_options = Inr (JObj [])"
  using diff_same_is_empty [of "JObj [(''a'', JNum 1), (''items'', JArr [JObj [(''id'', JStr ''x'')], Null])]" False default_options]
  by simp

text \<open>
  Claim C10.  Whole-tree equality compares JSON serialisations, so it depends on the order
  of the keys: two records with exactly the same key-value pairs, written in different
  orders, are unequal for \<^verbatim>\<open>isEqual\<close> and changed for \<^verbatim>\<open>hasChanges\<close>.
\<close>

theorem isEqual_key_order_sensitive:
  "\<exists>x y. distinct (map fst x) \<and> distinct (map fst y) \<and> set x = set y
     \<and> \<not> isEqual (JObj x) (JObj y) \<and> hasChanges (JObj x) (JObj y)"
proof -
  let ?x = "[(''a'', JNum 1), (''b'', JNum 2)]"
  let ?y = "[(''b'', JNum 2), (''a'', JNum 1)]"
  have ne: "\<not> isEqual (JObj ?x) (JObj ?y)"
    by (simp add: isEqual_def json_quote_def json_escape_def)
  have "distinct (map fst ?x)" "distinct (map fst ?y)" by simp_all
  moreover have "set ?x = set ?y" by auto
  ultimately show ?thesis using ne unfolding hasChanges_def by blast
qed

lemma typeof_object_cases:
  "js_typeof v = ''object'' \<longleftrightarrow> (v = Null \<or> (\<exists>d. v = JDate d) \<or> (\<exists>xs. v = JArr xs) \<or> (\<exists>kvs. v = JObj kvs))"
  by (cases v) auto





section \<open>Properties of the payload builder\<close>


lemma get_nested_Undef: "get_nested ks Undef = Undef"
  by (cases ks) auto

lemma split_dot_nonempty: "split_dot p \<noteq> []"
  by (induction p) (auto split: list.splits)








section \<open>Properties of the normalizer\<close>



section \<open>Properties of the facade\<close>




lemma update_appends:
  "k \<notin> fst ` set obj \<Longrightarrow> AList.update k v obj = obj @ [(k, v)]"
  by (induction obj) auto







lemma truthy_not_Undef: "truthy v \<Longrightarrow> v \<noteq> Undef"
  by auto







section \<open>Decimal text\<close>














section \<open>Bracketed segments\<close>





section \<open>Segments of the paths the differ builds\<close>

lemma split_dot_no_dot: "CHR ''.'' \<notin> set s \<Longrightarrow> split_dot s = [s]"
  by (induction s) auto

lemma split_dot_dot: "split_dot (a @ CHR ''.'' # b) = split_dot a @ split_dot b"
  by (induction a) (auto split: list.splits simp: split_dot_nonempty)










section \<open>Regions\<close>












lemma indep_keys: "a \<noteq> b \<Longrightarrow> indep (K a # r) (K b # r')"
  by simp













section \<open>Writes along addresses\<close>

lemma elem_ext_set: "elem (ext_set xs i v) j = (if i = j then v else elem xs j)"
  by (auto simp: elem_def ext_set_def nth_append)

lemma obj_get_update: "obj_get (AList.update k v kvs) k' = (if k = k' then v else obj_get kvs k')"
  by (simp add: obj_get_def update_conv')

lemma wf_addr_cont: "wf_addr (K k # r) \<Longrightarrow> r \<noteq> [] \<Longrightarrow> wf_cont r"
  by (induction "K k # r" rule: wf_addr.induct) auto

lemma wf_cont_I: "wf_cont (I i # r) \<Longrightarrow> wf_cont r \<and> r \<noteq> []"
  by (erule wf_cont.elims) auto

lemma wf_cont_nonempty: "wf_cont r \<Longrightarrow> r \<noteq> []"
  by auto

lemma rd_falsy: "\<not> truthy c \<Longrightarrow> wf_cont r \<Longrightarrow> rd r c = None"
  by (cases c; cases r rule: wf_cont.cases) auto

lemma rd_K: "wf_cont r \<Longrightarrow> rd (K k # r) (JObj kvs) = rd r (obj_get kvs k)"
  by (auto simp: obj_get_def rd_falsy split: option.splits)

lemma rd_I: "wf_cont r \<Longrightarrow> rd (I i # r) (JArr xs) = rd r (elem xs i)"
  by (auto simp: elem_def rd_falsy)

lemma admits_fresh: "wf_cont r \<Longrightarrow> admits r (fresh r)"
proof (cases r rule: wf_cont.cases)
  case (1 k r')
  assume "wf_cont r"
  then show ?thesis using 1 by (cases r') (auto simp: obj_get_def)
qed (auto simp: elem_def)

lemma admits_sub: "wf_cont r \<Longrightarrow> (truthy c \<Longrightarrow> admits r c) \<Longrightarrow> admits r (sub c r)"
  by (auto simp: sub_def admits_fresh)

lemma fresh_indep: "indep r r' \<Longrightarrow> fresh r = fresh r'"
  by (cases r rule: fresh.cases; cases r' rule: fresh.cases) auto

lemma sub_indep: "indep r r' \<Longrightarrow> sub c r = sub c r'"
  by (simp add: sub_def fresh_indep)

lemma rd_sub: "wf_cont r \<Longrightarrow> rd r (sub c r') = rd r c"
proof (cases "truthy c")
  case False
  assume w: "wf_cont r"
  have "\<not> truthy (JObj []) \<or> True" by simp
  have "rd r (fresh r') = None"
    using w by (cases r rule: wf_cont.cases; cases r' rule: fresh.cases) (auto simp: elem_def)
  then show ?thesis using False w by (simp add: sub_def rd_falsy)
qed (simp add: sub_def)


lemma frame:
  "wf_cont s \<Longrightarrow> wf_cont t \<Longrightarrow> indep s t \<Longrightarrow> admits s node \<Longrightarrow> admits t node
   \<Longrightarrow> rd t (wr s node v) = rd t node \<and> admits t (wr s node v)"
proof (induction s t arbitrary: node rule: indep.induct)
  case (1 k r k' r')
  then obtain kvs where n: "node = JObj kvs" by (cases node) auto
  show ?case
  proof (cases "k = k'")
    case False
    then show ?thesis using 1 n by (auto simp: update_conv' obj_get_update)
  next
    case True
    with 1 have ne: "r \<noteq> []" "r' \<noteq> []" and i: "indep r r'" by auto
    have w: "wf_cont r" "wf_cont r'" using 1 ne by (auto intro: wf_addr_cont)
    let ?c = "obj_get kvs k"
    have as: "admits r (sub ?c r)" using 1 n ne w by (intro admits_sub) auto
    have at: "admits r' (sub ?c r)"
      unfolding sub_indep [OF i] using 1 n ne w True by (intro admits_sub) auto
    have IH: "rd r' (wr r (sub ?c r) v) = rd r' (sub ?c r) \<and> admits r' (wr r (sub ?c r) v)"
      using "1.IH" [of "sub ?c r"] True ne i w as at by blast
    show ?thesis using IH n True ne w by (simp add: rd_K rd_sub obj_get_update del: rd.simps(2))
  qed
next
  case (2 i r j r')
  then obtain xs where n: "node = JArr xs" by (cases node) auto
  from 2 have w: "wf_cont r" "wf_cont r'" "r \<noteq> []" "r' \<noteq> []" by (auto dest: wf_cont_I)
  show ?case
  proof (cases "i = j")
    case False
    then show ?thesis using 2 n w by (simp add: rd_I elem_ext_set del: rd.simps(3))
  next
    case True
    with 2 have i: "indep r r'" by auto
    let ?c = "elem xs i"
    have as: "admits r (sub ?c r)" using 2 n w by (intro admits_sub) auto
    have at: "admits r' (sub ?c r)"
      unfolding sub_indep [OF i] using 2 n w True by (intro admits_sub) auto
    have IH: "rd r' (wr r (sub ?c r) v) = rd r' (sub ?c r) \<and> admits r' (wr r (sub ?c r) v)"
      using "2.IH" [of "sub ?c r"] True i w as at by blast
    show ?thesis using IH n True w by (simp add: rd_I rd_sub elem_ext_set del: rd.simps(3))
  qed
qed auto


section \<open>The walk of setChangePath is the write along the steps\<close>

lemma update_update: "AList.update k v (AList.update k w al) = AList.update k v al"
  by (induction al) auto








section \<open>A list of independent writes\<close>







section \<open>computeDiff applies its list of writes\<close>



lemma apply_log_single [simp]: "apply_log [(p, v)] ch = setChangePath ch p v"
  by (simp split: sum.splits)






section \<open>The writes of a comparison of simple trees are independent\<close>


















section \<open>The change tree of two simple trees\<close>




section \<open>What a reached pair contributes\<close>










section \<open>Deleted keys and changed elements in the change tree\<close>









section \<open>Assignments by path\<close>

lemma at_path_Undef: "at_path S Undef = Undef"
  by (cases S) auto

lemma frees_clean: "frees S node \<Longrightarrow> clean S node"
  by (induction S node rule: frees.induct) (auto split: option.splits)

lemma frees_at_path: "frees S node \<Longrightarrow> at_path S node = Undef"
  by (induction S node rule: frees.induct) (auto simp: obj_get_def at_path_Undef split: option.splits)

lemma get_nested_clean: "clean S node \<Longrightarrow> get_nested S node = at_path S node"
  by (induction S node rule: clean.induct)
     (auto simp: obj_get_def get_nested_Undef at_path_Undef split: option.splits)

lemma apart_sym: "apart S T \<Longrightarrow> apart T S"
  by (induction S T rule: apart.induct) auto

lemma frees_JObj: "frees S node \<Longrightarrow> \<exists>kvs. node = JObj kvs"
  by (cases node; cases S) auto

lemma set_nested_free:
  "frees S node \<Longrightarrow> \<exists>node'. set_nested S node v = Inr node' \<and> at_path S node' = v \<and> clean S node'
     \<and> (\<forall>T. apart S T \<longrightarrow> at_path T node' = at_path T node
                \<and> (frees T node \<longrightarrow> frees T node') \<and> (clean T node \<longrightarrow> clean T node'))"
proof (induction S node v rule: set_nested.induct)
  case (1 cur v)
  then show ?case by simp
next
  case (2 lastKey cur v)
  then obtain kvs where c: "cur = JObj kvs" and n: "map_of kvs lastKey = None"
    by (cases cur) (auto split: option.splits)
  have "at_path T (JObj (AList.update lastKey v kvs)) = at_path T cur
      \<and> (frees T cur \<longrightarrow> frees T (JObj (AList.update lastKey v kvs)))
      \<and> (clean T cur \<longrightarrow> clean T (JObj (AList.update lastKey v kvs)))" if "apart [lastKey] T" for T
    using that c by (cases T) (auto simp: obj_get_def update_conv')
  then show ?case using c by (auto simp: obj_get_def update_conv')
next
  case (3 key k2 rest cur v)
  then obtain kvs where c: "cur = JObj kvs" by (cases cur) auto
  let ?r = "k2 # rest"
  let ?child = "case map_of kvs key of None \<Rightarrow> JObj [] | Some c \<Rightarrow> c"
  have fc: "frees ?r ?child" using "3.prems" c by (auto split: option.splits)
  then obtain ckvs where ck: "?child = JObj ckvs" using frees_JObj by blast
  let ?cur1 = "case map_of kvs key of None \<Rightarrow> JObj (AList.update key (JObj []) kvs) | Some c \<Rightarrow> cur"
  have e: "(if \<not> truthy (obj_get kvs key) \<or> \<not> isPlainObject (obj_get kvs key)
            then set_prop cur key (JObj []) else Inr cur) = Inr ?cur1"
    using c ck by (auto simp: obj_get_def isPlainObject_def split: option.splits)
  have g: "get_prop ?cur1 key = Inr ?child"
    using c by (auto simp: obj_get_def update_conv' split: option.splits)
  obtain child' where s: "set_nested ?r ?child v = Inr child'" and a: "at_path ?r child' = v"
      and cl: "clean ?r child'"
      and fr: "\<forall>T. apart ?r T \<longrightarrow> at_path T child' = at_path T ?child
                \<and> (frees T ?child \<longrightarrow> frees T child') \<and> (clean T ?child \<longrightarrow> clean T child')"
    using "3.IH" [of "obj_get kvs key" ?cur1 ?child] c e g fc by auto
  let ?node' = "JObj (AList.update key child' kvs)"
  have w: "set_prop ?cur1 key child' = Inr ?node'"
    using c by (auto simp: update_update split: option.splits)
  have res: "set_nested (key # ?r) cur v = Inr ?node'"
  proof (cases "map_of kvs key")
    case None
    then show ?thesis using c s by (simp add: obj_get_def update_conv')
  next
    case (Some d)
    then show ?thesis using c s ck by (simp add: obj_get_def isPlainObject_def)
  qed
  have frame: "at_path T ?node' = at_path T cur \<and> (frees T cur \<longrightarrow> frees T ?node')
      \<and> (clean T cur \<longrightarrow> clean T ?node')" if ap: "apart (key # ?r) T" for T
  proof (cases T)
    case Nil
    then show ?thesis using ap by simp
  next
    case (Cons k' r')
    show ?thesis
    proof (cases "k' = key")
      case False
      then show ?thesis using Cons c by (auto simp: obj_get_def update_conv')
    next
      case True
      then have ap': "apart ?r r'" using ap Cons by simp
      then have r': "r' \<noteq> []" by (cases r') auto
      have f: "at_path r' child' = at_path r' ?child"
        "frees r' ?child \<longrightarrow> frees r' child'" "clean r' ?child \<longrightarrow> clean r' child'"
        using fr ap' by blast+
      have old: "at_path r' ?child = at_path r' (obj_get kvs key)"
        using r' by (cases r') (auto simp: obj_get_def at_path_Undef split: option.splits)
      have cf: "clean r' (JObj [])" "frees r' (JObj [])" using r' by (cases r'; simp)+
      show ?thesis
        using Cons True c f old r' cf
        by (auto simp: obj_get_def update_conv' split: option.splits)
    qed
  qed
  show ?case
    using res a cl frame by (auto simp: obj_get_def update_conv')
qed


lemma apply_sets_append:
  "apply_sets (A @ B) node = (case apply_sets A node of Inl e \<Rightarrow> Inl e | Inr n \<Rightarrow> apply_sets B n)"
  by (induction A arbitrary: node) (auto split: sum.splits)

lemma apply_sets_ok:
  "all_apart (map fst W) \<Longrightarrow> (\<forall>w \<in> set W. frees (fst w) node)
   \<Longrightarrow> \<exists>node'. apply_sets W node = Inr node'
        \<and> (\<forall>w \<in> set W. at_path (fst w) node' = snd w \<and> clean (fst w) node')
        \<and> (\<forall>T. (\<forall>w \<in> set W. apart (fst w) T) \<longrightarrow> at_path T node' = at_path T node
                \<and> (frees T node \<longrightarrow> frees T node') \<and> (clean T node \<longrightarrow> clean T node'))"
proof (induction W arbitrary: node)
  case Nil
  then show ?case by simp
next
  case (Cons w ws)
  from Cons.prems have fw: "frees (fst w) node" by simp
  obtain n1 where s: "set_nested (fst w) node (snd w) = Inr n1"
      and a: "at_path (fst w) n1 = snd w" and c: "clean (fst w) n1"
      and fr: "\<And>T. apart (fst w) T \<Longrightarrow> at_path T n1 = at_path T node
                \<and> (frees T node \<longrightarrow> frees T n1) \<and> (clean T node \<longrightarrow> clean T n1)"
    using set_nested_free [OF fw, of "snd w"] by blast
  have ap: "\<And>u. u \<in> set ws \<Longrightarrow> apart (fst w) (fst u)" using Cons.prems(1) by simp
  have "\<forall>u \<in> set ws. frees (fst u) n1" using Cons.prems(2) ap fr by simp
  moreover have "all_apart (map fst ws)" using Cons.prems(1) by simp
  ultimately obtain n2 where s2: "apply_sets ws n1 = Inr n2"
      and a2: "\<And>u. u \<in> set ws \<Longrightarrow> at_path (fst u) n2 = snd u \<and> clean (fst u) n2"
      and fr2: "\<And>T. (\<forall>u \<in> set ws. apart (fst u) T) \<Longrightarrow> at_path T n2 = at_path T n1
                \<and> (frees T n1 \<longrightarrow> frees T n2) \<and> (clean T n1 \<longrightarrow> clean T n2)"
    using Cons.IH [of n1] by blast
  have rev: "\<forall>u \<in> set ws. apart (fst u) (fst w)" using ap apart_sym by blast
  have w: "at_path (fst w) n2 = snd w \<and> clean (fst w) n2"
    using fr2 [OF rev] a c by simp
  have "at_path T n2 = at_path T node \<and> (frees T node \<longrightarrow> frees T n2) \<and> (clean T node \<longrightarrow> clean T n2)"
    if "\<forall>u \<in> set (w # ws). apart (fst u) T" for T
    using that fr [of T] fr2 [of T] by simp
  then show ?case using s s2 w a2 by auto
qed

lemma all_apart_filter: "all_apart (map f ps) \<Longrightarrow> all_apart (map f (filter P ps))"
  by (induction ps) auto

lemma all_apart_pair:
  "all_apart (map f ps) \<Longrightarrow> p \<in> set ps \<Longrightarrow> q \<in> set ps \<Longrightarrow> p \<noteq> q \<Longrightarrow> apart (f p) (f q)"
  by (induction ps) (auto intro: apart_sym)

lemma frees_empty: "S \<noteq> [] \<Longrightarrow> frees S (JObj [])"
  by (cases S) auto

lemma writes_read:
  assumes ap: "all_apart (map f ps)" and ne: "\<forall>p \<in> set ps. f p \<noteq> []"
  shows "\<exists>node. apply_sets (writes f val ps) (JObj []) = Inr node
        \<and> (\<forall>p \<in> set ps. at_path (f p) node = val p \<and> clean (f p) node)"
proof -
  let ?W = "writes f val ps"
  have m: "map fst ?W = map f (filter (\<lambda>p. val p \<noteq> Undef) ps)"
    by (simp add: writes_def comp_def)
  have 1: "all_apart (map fst ?W)" unfolding m using ap by (rule all_apart_filter)
  have 2: "\<forall>w \<in> set ?W. frees (fst w) (JObj [])"
    using ne by (auto simp: writes_def intro: frees_empty)
  obtain node where s: "apply_sets ?W (JObj []) = Inr node"
      and a: "\<And>w. w \<in> set ?W \<Longrightarrow> at_path (fst w) node = snd w \<and> clean (fst w) node"
      and fr: "\<And>T. (\<forall>w \<in> set ?W. apart (fst w) T) \<Longrightarrow> at_path T node = at_path T (JObj [])
                \<and> (frees T (JObj []) \<longrightarrow> frees T node)"
    using apply_sets_ok [OF 1 2] by blast
  have "at_path (f p) node = val p \<and> clean (f p) node" if p: "p \<in> set ps" for p
  proof (cases "val p = Undef")
    case False
    then have "(f p, val p) \<in> set ?W" using p by (auto simp: writes_def)
    from a [OF this] show ?thesis by simp
  next
    case True
    have "\<forall>w \<in> set ?W. apart (fst w) (f p)"
      using all_apart_pair [OF ap _ p] True by (auto simp: writes_def)
    from fr [OF this] have "at_path (f p) node = at_path (f p) (JObj [])" "frees (f p) node"
      using ne p by (auto intro: frees_empty)
    then show ?thesis using True ne p
      by (auto simp: frees_clean frees_at_path intro: frees_empty)
  qed
  then show ?thesis using s by blast
qed


section \<open>The normalizer as a list of assignments\<close>

lemma writes_append: "writes f val (A @ B) = writes f val A @ writes f val B"
  by (simp add: writes_def)

lemma writes_Nil: "writes f val [] = []"
  by (simp add: writes_def)

lemma plain_read: "isPlainObject src \<Longrightarrow> opt_chain src nk = at_path [nk] src"
  by (cases src) (auto simp: isPlainObject_def opt_chain_def)

lemma not_plain_read: "\<not> isPlainObject src \<Longrightarrow> at_path (nk # r) src = Undef"
  by (cases src) (auto simp: isPlainObject_def)

lemma writes_nested_none:
  "\<not> isPlainObject (obj_get xkvs k)
   \<Longrightarrow> writes f (\<lambda>p. at_path (fst p) (JObj xkvs)) (pairs_nested k nkvs) = []"
  by (induction nkvs) (auto simp: writes_def not_plain_read split: jsval.splits)

lemma processMapping_nested:
  "list_all (\<lambda>nkv. dotfree (fst nkv) \<and> leaf_form (snd nkv)) nkvs
   \<Longrightarrow> no_sequence_nested (obj_get xkvs k) nkvs \<Longrightarrow> isPlainObject (obj_get xkvs k)
   \<Longrightarrow> processMapping plain_norm (obj_get xkvs k) nkvs fd
       = apply_sets (writes (\<lambda>p. split_dot (snd p)) (\<lambda>p. at_path (fst p) (JObj xkvs))
                       (pairs_nested k nkvs)) fd"
proof (induction nkvs arbitrary: fd)
  case Nil
  then show ?case by (simp add: writes_def)
next
  case (Cons nkv rest)
  have rd: "opt_chain (obj_get xkvs k) nk = at_path [k, nk] (JObj xkvs)" for nk
    using plain_read [OF Cons.prems(3)] by simp
  have ih: "processMapping plain_norm (obj_get xkvs k) rest fd'
       = apply_sets (writes (\<lambda>p. split_dot (snd p)) (\<lambda>p. at_path (fst p) (JObj xkvs))
                       (pairs_nested k rest)) fd'" for fd'
    using Cons by simp
  show ?case
  proof (cases "snd nkv")
    case (JStr t)
    then show ?thesis
      using ih rd [of "fst nkv"]
      by (auto simp: plain_norm_def no_transform_def writes_def setNestedValue_def
               split: sum.splits)
  next
    case (JArr ms)
    then show ?thesis
      using ih Cons.prems(2) by (auto simp: writes_def split: jsval.splits)
  qed (use Cons.prems(1) in auto)
qed


lemma processMapping_top:
  "list_all (\<lambda>kv. dotfree (fst kv) \<and> entry_form (snd kv)) mkvs
   \<Longrightarrow> no_sequence_top (JObj xkvs) mkvs
   \<Longrightarrow> processMapping plain_norm (JObj xkvs) mkvs fd
       = apply_sets (writes (\<lambda>p. split_dot (snd p)) (\<lambda>p. at_path (fst p) (JObj xkvs))
                       (pairs_top mkvs)) fd"
proof (induction mkvs arbitrary: fd)
  case Nil
  then show ?case by (simp add: writes_def)
next
  case (Cons kv rest)
  let ?f = "\<lambda>p. split_dot (snd p)"
  let ?val = "\<lambda>p. at_path (fst p) (JObj xkvs)"
  have oc: "opt_chain (JObj xkvs) k = obj_get xkvs k" for k
    by (simp add: opt_chain_def)
  have ih: "processMapping plain_norm (JObj xkvs) rest fd'
       = apply_sets (writes ?f ?val (pairs_top rest)) fd'" for fd'
    using Cons by simp
  show ?case
  proof (cases "snd kv")
    case (JStr t)
    then show ?thesis
      using ih oc [of "fst kv"]
      by (auto simp: plain_norm_def no_transform_def writes_def setNestedValue_def
               split: sum.splits)
  next
    case (JArr ms)
    then show ?thesis
      using ih Cons.prems(2) by (auto simp: writes_def split: jsval.splits)
  next
    case (JObj nkvs)
    have forms: "list_all (\<lambda>nkv. dotfree (fst nkv) \<and> leaf_form (snd nkv)) nkvs"
      using Cons.prems(1) JObj by simp
    have ns: "no_sequence_nested (obj_get xkvs (fst kv)) nkvs"
      using Cons.prems(2) JObj oc by simp
    have pl: "isPlainObject (JObj nkvs)" by (simp add: isPlainObject_def)
    show ?thesis
    proof (cases "isPlainObject (obj_get xkvs (fst kv))")
      case True
      have "processMapping plain_norm (JObj xkvs) (kv # rest) fd
          = (case processMapping plain_norm (obj_get xkvs (fst kv)) nkvs fd of
               Inl e \<Rightarrow> Inl e
             | Inr fd' \<Rightarrow> processMapping plain_norm (JObj xkvs) rest fd')"
        using JObj True pl oc by simp
      then show ?thesis
        using JObj ih processMapping_nested [OF forms ns True]
        by (simp add: writes_append apply_sets_append split: sum.splits)
    next
      case False
      have "processMapping plain_norm (JObj xkvs) (kv # rest) fd
          = processMapping plain_norm (JObj xkvs) rest fd"
        using JObj False pl oc by simp
      then show ?thesis
        using JObj ih writes_nested_none [OF False]
        by (simp add: writes_append)
    qed
  qed (use Cons.prems(1) in auto)
qed

section \<open>The inverted mapping\<close>

lemma inverted_append: "inverted (A @ B) = inverted A @ inverted B"
  by (simp add: inverted_def)

lemma invert_nested_pairs:
  "list_all (\<lambda>nkv. dotfree (fst nkv) \<and> leaf_form (snd nkv)) nkvs
   \<Longrightarrow> distinct (map fst acc @ map snd (pairs_nested k nkvs))
   \<Longrightarrow> invert_nested k nkvs acc = acc @ inverted (pairs_nested k nkvs)"
proof (induction nkvs arbitrary: acc)
  case Nil
  then show ?case by (simp add: inverted_def)
next
  case (Cons nkv rest)
  show ?case
  proof (cases "snd nkv")
    case (JStr t)
    have t: "t \<notin> fst ` set acc" using Cons.prems(2) JStr by auto
    have d: "distinct (map fst (acc @ [(t, JStr (k @ ''.'' @ fst nkv))]) @ map snd (pairs_nested k rest))"
      using Cons.prems(2) JStr by auto
    show ?thesis
      using JStr Cons.IH [OF _ d] Cons.prems(1) update_appends [OF t]
      by (simp add: inverted_def)
  next
    case (JArr ms)
    then show ?thesis
      using Cons by (simp add: isPlainObject_def)
  qed (use Cons.prems(1) in auto)
qed

lemma invert_fields_pairs:
  "list_all (\<lambda>kv. dotfree (fst kv) \<and> entry_form (snd kv)) mkvs
   \<Longrightarrow> distinct (map fst acc @ map snd (pairs_top mkvs))
   \<Longrightarrow> invert_fields mkvs acc = acc @ inverted (pairs_top mkvs)"
proof (induction mkvs arbitrary: acc)
  case Nil
  then show ?case by (simp add: inverted_def)
next
  case (Cons kv rest)
  show ?case
  proof (cases "snd kv")
    case (JStr t)
    have t: "t \<notin> fst ` set acc" using Cons.prems(2) JStr by auto
    have d: "distinct (map fst (acc @ [(t, JStr (fst kv))]) @ map snd (pairs_top rest))"
      using Cons.prems(2) JStr by auto
    show ?thesis
      using JStr Cons.IH [OF _ d] Cons.prems(1) update_appends [OF t]
      by (simp add: inverted_def isPlainObject_def)
  next
    case (JArr ms)
    then show ?thesis
      using Cons by (simp add: isPlainObject_def)
  next
    case (JObj nkvs)
    have forms: "list_all (\<lambda>nkv. dotfree (fst nkv) \<and> leaf_form (snd nkv)) nkvs"
      using Cons.prems(1) JObj by simp
    have d1: "distinct (map fst acc @ map snd (pairs_nested (fst kv) nkvs))"
      using Cons.prems(2) JObj by auto
    have d2: "distinct (map fst (acc @ inverted (pairs_nested (fst kv) nkvs)) @ map snd (pairs_top rest))"
      using Cons.prems(2) JObj by (auto simp: inverted_def comp_def)
    show ?thesis
      using JObj Cons.IH [OF _ d2] Cons.prems(1) invert_nested_pairs [OF forms d1]
      by (simp add: inverted_append isPlainObject_def)
  qed (use Cons.prems(1) in auto)
qed


section \<open>The denormalizer as a list of assignments\<close>

lemma split_dot_join:
  "ks \<noteq> [] \<Longrightarrow> list_all dotfree ks \<Longrightarrow> split_dot (join_with ''.'' ks) = ks"
proof (induction ks)
  case Nil
  then show ?case by simp
next
  case (Cons x r)
  show ?case
  proof (cases r)
    case Nil
    then show ?thesis using Cons.prems by (simp add: dotfree_def split_dot_no_dot)
  next
    case (Cons y ys)
    then show ?thesis
      using Cons.prems Cons.IH split_dot_dot [of x "join_with ''.'' (y # ys)"]
      by (simp add: dotfree_def split_dot_no_dot)
  qed
qed

lemma assign_by_path:
  assumes "ks \<noteq> []" "list_all dotfree ks"
  shows "(if CHR ''.'' \<in> set (join_with ''.'' ks)
          then setNestedValue payload (join_with ''.'' ks) v
          else set_prop payload (join_with ''.'' ks) v) = set_nested ks payload v"
proof (cases ks)
  case Nil
  then show ?thesis using assms by simp
next
  case (Cons x r)
  show ?thesis
  proof (cases r)
    case Nil
    then show ?thesis using assms Cons by (simp add: dotfree_def)
  next
    case (Cons y ys)
    then show ?thesis
      using assms \<open>ks = x # r\<close> split_dot_join [of ks] by (simp add: setNestedValue_def)
  qed
qed

lemma processFormData_pairs:
  "(\<forall>p \<in> set ps. fst p \<noteq> [] \<and> list_all dotfree (fst p))
   \<Longrightarrow> processFormData default_denorm form (inverted ps) payload
       = apply_sets (writes fst (\<lambda>p. getNestedValue form (snd p)) ps) payload"
proof (induction ps arbitrary: payload)
  case Nil
  then show ?case by (simp add: writes_def inverted_def)
next
  case (Cons p ps)
  have ih: "processFormData default_denorm form (inverted ps) payload'
       = apply_sets (writes fst (\<lambda>p. getNestedValue form (snd p)) ps) payload'" for payload'
    using Cons by simp
  have a: "(if CHR ''.'' \<in> set (join_with ''.'' (fst p))
          then setNestedValue payload (join_with ''.'' (fst p)) v
          else set_prop payload (join_with ''.'' (fst p)) v) = set_nested (fst p) payload v" for v
    using Cons.prems assign_by_path [of "fst p"] by simp
  show ?case
  proof (cases "getNestedValue form (snd p) = Undef")
    case True
    then show ?thesis
      using ih by (simp add: inverted_def writes_def default_denorm_def)
  next
    case False
    then show ?thesis
      using ih a [of "getNestedValue form (snd p)"]
      by (simp add: inverted_def writes_def default_denorm_def no_transform_def Let_def
               split: sum.splits)
  qed
qed

section \<open>The mapped paths of a tree with one level of nesting\<close>

lemma pairs_nested_paths:
  "p \<in> set (pairs_nested k nkvs) \<Longrightarrow> \<exists>nk. fst p = [k, nk] \<and> nk \<in> fst ` set nkvs"
  by (induction nkvs) (auto split: jsval.splits)

lemma pairs_nested_dotfree:
  "dotfree k \<Longrightarrow> list_all (\<lambda>nkv. dotfree (fst nkv) \<and> leaf_form (snd nkv)) nkvs
   \<Longrightarrow> p \<in> set (pairs_nested k nkvs) \<Longrightarrow> fst p \<noteq> [] \<and> list_all dotfree (fst p)"
  by (induction nkvs) (auto split: jsval.splits)

lemma pairs_top_dotfree:
  "list_all (\<lambda>kv. dotfree (fst kv) \<and> entry_form (snd kv)) mkvs
   \<Longrightarrow> p \<in> set (pairs_top mkvs) \<Longrightarrow> fst p \<noteq> [] \<and> list_all dotfree (fst p)"
proof (induction mkvs)
  case (Cons kv rest)
  then show ?case
    using pairs_nested_dotfree [of "fst kv" _ p]
    by (cases "snd kv") auto
qed simp

lemma pairs_top_heads:
  "p \<in> set (pairs_top mkvs) \<Longrightarrow> \<exists>k r. fst p = k # r \<and> k \<in> fst ` set mkvs"
proof (induction mkvs)
  case (Cons kv rest)
  then show ?case
    by (cases "snd kv") (auto dest!: pairs_nested_paths)
qed simp

lemma all_apart_append:
  "all_apart (A @ B) = (all_apart A \<and> all_apart B \<and> (\<forall>a \<in> set A. \<forall>b \<in> set B. apart a b))"
  by (induction A) auto

lemma pairs_nested_apart:
  "distinct (map fst nkvs) \<Longrightarrow> all_apart (map fst (pairs_nested k nkvs))"
proof (induction nkvs)
  case (Cons nkv rest)
  have "apart [k, fst nkv] (fst q)" if mem: "q \<in> set (pairs_nested k rest)" for q
  proof -
    obtain nk where q: "fst q = [k, nk]" "nk \<in> fst ` set rest"
      using pairs_nested_paths [OF mem] by blast
    have "fst nkv \<notin> fst ` set rest" using Cons.prems by simp
    then have "fst nkv \<noteq> nk" using q(2) by blast
    then show ?thesis using q(1) by simp
  qed
  then show ?case
    using Cons by (cases "snd nkv") (auto simp: all_apart_append)
qed simp

lemma pairs_top_apart:
  "two_level mkvs \<Longrightarrow> all_apart (map fst (pairs_top mkvs))"
proof (induction mkvs)
  case (Cons kv rest)
  have tl: "two_level rest" using Cons.prems by (simp add: two_level_def)
  have k: "fst kv \<notin> fst ` set rest" using Cons.prems by (simp add: two_level_def)
  have far: "apart (fst kv # r) (fst q)" if mem: "q \<in> set (pairs_top rest)" for q r
  proof -
    obtain k' r' where q: "fst q = k' # r'" "k' \<in> fst ` set rest"
      using pairs_top_heads [OF mem] by blast
    have "fst kv \<noteq> k'" using q(2) k by blast
    then show ?thesis using q(1) by simp
  qed
  show ?case
  proof (cases "snd kv")
    case (JObj nkvs)
    have "distinct (map fst nkvs)" using Cons.prems JObj by (simp add: two_level_def)
    from pairs_nested_apart [OF this, of "fst kv"]
    have "all_apart (map fst (pairs_nested (fst kv) nkvs))" .
    moreover have "apart (fst p) (fst q)"
      if "p \<in> set (pairs_nested (fst kv) nkvs)" "q \<in> set (pairs_top rest)" for p q
      using pairs_nested_paths [OF that(1)] far [OF that(2)] by auto
    ultimately show ?thesis
      using JObj Cons.IH [OF tl] by (auto simp: all_apart_append)
  next
    case (JStr t)
    then show ?thesis using Cons.IH [OF tl] far by auto
  qed (use Cons.IH [OF tl] in auto)
qed simp

lemma apart_irrefl: "\<not> apart S S"
  by (induction S) auto

lemma all_apart_distinct:
  "all_apart (map (\<lambda>p. split_dot (snd p)) ps) \<Longrightarrow> distinct (map snd ps)"
proof (induction ps)
  case (Cons p ps)
  have "snd p \<notin> snd ` set ps"
  proof
    assume "snd p \<in> snd ` set ps"
    then obtain q where "q \<in> set ps" "snd q = snd p" by auto
    then have "apart (split_dot (snd p)) (split_dot (snd p))" using Cons.prems by force
    then show False by (simp add: apart_irrefl)
  qed
  then show ?case using Cons by simp
qed simp

text \<open>
  C1, amended.  For a mapping tree with at most one level of nesting whose keys have no
  dot, whose target paths are pairwise apart (no target name is another one or leads
  through another one), and a source record that has no sequence where the mapping has
  an array form: with no transforms and type coercion off, \<^verbatim>\<open>normalize\<close> returns a
  form, \<^verbatim>\<open>denormalize\<close> of that form returns a payload, and the payload holds at
  every mapped source path the value the source holds there.
\<close>

theorem round_trip_at_mapped_paths:
  assumes tl: "two_level mkvs"
    and ap: "all_apart (map (\<lambda>p. split_dot (snd p)) (pairs_top mkvs))"
    and ns: "no_sequence_top (JObj xkvs) mkvs"
  shows "\<exists>form payload.
           normalize (JObj xkvs) (JObj mkvs) plain_norm = Inr form
         \<and> denormalize form (JObj mkvs) default_denorm = Inr payload
         \<and> (\<forall>p \<in> set (pairs_top mkvs). at_path (fst p) payload = at_path (fst p) (JObj xkvs))"
proof -
  let ?ps = "pairs_top mkvs"
  let ?x = "JObj xkvs"
  have forms: "list_all (\<lambda>kv. dotfree (fst kv) \<and> entry_form (snd kv)) mkvs"
    using tl by (simp add: two_level_def)
  have n: "normalize ?x (JObj mkvs) plain_norm
      = apply_sets (writes (\<lambda>p. split_dot (snd p)) (\<lambda>p. at_path (fst p) ?x) ?ps) (JObj [])"
    using processMapping_top [OF forms ns, of "JObj []"]
    by (simp add: normalize_def plain_norm_def)
  obtain form where f: "normalize ?x (JObj mkvs) plain_norm = Inr form"
      and fr: "\<And>p. p \<in> set ?ps \<Longrightarrow> at_path (split_dot (snd p)) form = at_path (fst p) ?x
                  \<and> clean (split_dot (snd p)) form"
    using writes_read [OF ap, of "\<lambda>p. at_path (fst p) ?x"] n
    by (auto simp: split_dot_nonempty)
  have g: "getNestedValue form (snd p) = at_path (fst p) ?x" if "p \<in> set ?ps" for p
    using fr [OF that] by (simp add: getNestedValue_def get_nested_clean)
  have inv: "invert_fields mkvs [] = inverted ?ps"
    using invert_fields_pairs [OF forms, of "[]"] all_apart_distinct [OF ap] by simp
  have paths: "\<forall>p \<in> set ?ps. fst p \<noteq> [] \<and> list_all dotfree (fst p)"
    using pairs_top_dotfree [OF forms] by blast
  have d: "denormalize form (JObj mkvs) default_denorm
      = apply_sets (writes fst (\<lambda>p. getNestedValue form (snd p)) ?ps) (JObj [])"
    using processFormData_pairs [OF paths, of form "JObj []"] inv
    by (simp add: denormalize_def invertMapping_def)
  obtain payload where p: "denormalize form (JObj mkvs) default_denorm = Inr payload"
      and pr: "\<And>p. p \<in> set ?ps \<Longrightarrow> at_path (fst p) payload = getNestedValue form (snd p)"
    using writes_read [OF pairs_top_apart [OF tl], of "\<lambda>p. getNestedValue form (snd p)"] d paths
    by auto
  show ?thesis using f p pr g by auto
qed


theorem round_trip_at_mapped_paths_witness:
  "two_level [(''user_name'', JStr ''userName''),
              (''address'', JObj [(''city'', JStr ''addr.city''), (''zip'', JStr ''zip'')]),
              (''tags'', JArr [JStr ''t''])]
   \<and> all_apart (map (\<lambda>p. split_dot (snd p))
        (pairs_top [(''user_name'', JStr ''userName''),
              (''address'', JObj [(''city'', JStr ''addr.city''), (''zip'', JStr ''zip'')]),
              (''tags'', JArr [JStr ''t''])]))
   \<and> no_sequence_top
        (JObj [(''user_name'', JStr ''John''),
               (''address'', JObj [(''city'', JStr ''Pune''), (''zip'', JNum 411)])])
        [(''user_name'', JStr ''userName''),
         (''address'', JObj [(''city'', JStr ''addr.city''), (''zip'', JStr ''zip'')]),
         (''tags'', JArr [JStr ''t''])]
   \<and> (\<exists>form payload.
          normalize (JObj [(''user_name'', JStr ''John''),
                 (''address'', JObj [(''city'', JStr ''Pune''), (''zip'', JNum 411)])])
            (JObj [(''user_name'', JStr ''userName''),
              (''address'', JObj [(''city'', JStr ''addr.city''), (''zip'', JStr ''zip'')]),
              (''tags'', JArr [JStr ''t''])]) plain_norm = Inr form
        \<and> denormalize form
            (JObj [(''user_name'', JStr ''userName''),
              (''address'', JObj [(''city'', JStr ''addr.city''), (''zip'', JStr ''zip'')]),
              (''tags'', JArr [JStr ''t''])]) default_denorm = Inr payload
        \<and> at_path [''user_name''] payload = JStr ''John''
        \<and> at_path [''address'', ''city''] payload = JStr ''Pune''
        \<and> at_path [''address'', ''zip''] payload = JNum 411)"
proof -
  let ?M = "[(''user_name'', JStr ''userName''),
              (''address'', JObj [(''city'', JStr ''addr.city''), (''zip'', JStr ''zip'')]),
              (''tags'', JArr [JStr ''t''])]"
  let ?X = "[(''user_name'', JStr ''John''),
               (''address'', JObj [(''city'', JStr ''Pune''), (''zip'', JNum 411)])]"
  have tl: "two_level ?M" by (simp add: two_level_def dotfree_def)
  have ap: "all_apart (map (\<lambda>p. split_dot (snd p)) (pairs_top ?M))" by simp
  have ns: "no_sequence_top (JObj ?X) ?M" by (simp add: opt_chain_def obj_get_def)
  show ?thesis
    using tl ap ns round_trip_at_mapped_paths [OF tl ap ns]
    by (simp add: obj_get_def)
qed

text \<open>
  The target names \<^verbatim>\<open>a\<close> and \<^verbatim>\<open>a.b\<close> are two names, and the second leads through
  the first: the form keeps \<^verbatim>\<open>{a: {b: 2}}\<close>, and the payload has \<^verbatim>\<open>{b: 2}\<close> at
  \<^verbatim>\<open>x\<close> where the source has 1.
\<close>

theorem round_trip_counterexample:
  "normalize (JObj [(''x'', JNum 1), (''y'', JNum 2)])
     (JObj [(''x'', JStr ''a''), (''y'', JStr ''a.b'')]) plain_norm
     = Inr (JObj [(''a'', JObj [(''b'', JNum 2)])])
   \<and> denormalize (JObj [(''a'', JObj [(''b'', JNum 2)])])
       (JObj [(''x'', JStr ''a''), (''y'', JStr ''a.b'')]) default_denorm
     = Inr (JObj [(''x'', JObj [(''b'', JNum 2)]), (''y'', JNum 2)])
   \<and> at_path [''x''] (JObj [(''x'', JObj [(''b'', JNum 2)]), (''y'', JNum 2)])
       \<noteq> at_path [''x''] (JObj [(''x'', JNum 1), (''y'', JNum 2)])"
  by (simp add: normalize_def denormalize_def invertMapping_def plain_norm_def default_denorm_def
      no_transform_def opt_chain_def obj_get_def setNestedValue_def getNestedValue_def
      isPlainObject_def Let_def)

text \<open>
  With two levels of nesting the inverted mapping loses the outer key: the entry for
  \<^verbatim>\<open>user.profile.name\<close> is inverted to \<^verbatim>\<open>profile.name\<close>, beside an empty record
  at \<^verbatim>\<open>profile\<close>.
\<close>

lemma invertMapping_two_levels:
  "invertMapping (JObj [(''user'', JObj [(''profile'', JObj [(''name'', JStr ''userName'')])])])
     = JObj [(''profile'', JObj []), (''userName'', JStr ''profile.name'')]"
  by (simp add: invertMapping_def isPlainObject_def obj_get_def)

end
